theory Spec2Isabelle
  imports Main "HOL-Library.Word" "HOL-Library.Signed_Division" "HOL-Library.Multiset"
begin

section \<open>Data model of \<^verbatim>\<open>main.go\<close>\<close>

text \<open>
  Go's \<^verbatim>\<open>int\<close> is taken at its 64-bit width (amd64, arm64): addition wraps around in two's
  complement, \<^verbatim>\<open>%\<close> truncates towards zero and \<^verbatim>\<open><\<close> compares signed values.
\<close>

type_synonym go_int = "64 word"

text \<open>
  \<^verbatim>\<open>type Event struct { ID int; Resource string; Value any; Time time.Time }\<close>.
  The payload type \<^verbatim>\<open>any\<close> and \<^verbatim>\<open>time.Time\<close> are opaque to the bus: they are type
  parameters. The bus never computes with \<^verbatim>\<open>ID\<close>, so it is an unbounded integer here.
\<close>

record ('v, 't) Event =
  ID :: int
  Resource :: string
  Value :: 'v
  Time :: 't

text \<open>
  The run-time panics that the code of the bus can raise. None of them is recovered in
  \<^verbatim>\<open>main.go\<close>, so each one ends the process; its value is the whole diagnostic the
  program gives. The runtime prints them as
  \<^verbatim>\<open>send on closed channel\<close>, \<^verbatim>\<open>close of closed channel\<close>,
  \<^verbatim>\<open>makechan: size out of range\<close>, \<^verbatim>\<open>index out of range [i] with length n\<close>,
  \<^verbatim>\<open>sync: negative WaitGroup counter\<close> and \<^verbatim>\<open>invalid argument to Intn\<close>.
\<close>

datatype panic =
    SendOnClosedChannel
  | CloseOfClosedChannel
  | MakechanSizeOutOfRange
  | IndexOutOfRange int nat
  | NegativeWaitGroupCounter
  | InvalidArgumentToIntn

text \<open>
  A channel, as the Go runtime keeps it: the buffered elements (oldest first), the buffer
  size given to \<^verbatim>\<open>make\<close>, the closed flag, and the queue of senders parked on the full
  channel, each with the value it is sending (oldest first). A receiver parked on an
  empty channel holds no data; it is a consumer whose next iteration does nothing.
\<close>

record 'e chan =
  buf :: "'e list"
  dataqsiz :: nat
  closed :: bool
  sendq :: "'e list"

text \<open>\<^verbatim>\<open>type Conveyor chan Event\<close>\<close>

type_synonym ('v, 't) Conveyor = "('v, 't) Event chan"

text \<open>
  \<^verbatim>\<open>type MainBus struct { Resource string; Conveyors []Conveyor }\<close>. Every channel of the
  slice is created by \<^verbatim>\<open>NewMainBus\<close> and referenced from nowhere else, so the state of
  each channel is kept in the list itself.
\<close>

record ('v, 't) MainBus =
  Resource :: string
  Conveyors :: "('v, 't) Conveyor list"

text \<open>
  What a call that may block has done when the scheduler next looks at it: it returned,
  it is parked (the state shows where), or it panicked.
\<close>

datatype 'a outcome = Completed 'a | Suspended 'a | Panicked panic

section \<open>Channel operations of the Go runtime\<close>

text \<open>
  \<^verbatim>\<open>make(Conveyor, buffer)\<close>: the runtime panics when the size is negative or when the
  buffer would exceed what it can allocate; \<open>lim\<close> is that platform bound, counted in
  elements. Running out of memory below that bound is outside the model.
\<close>

definition makechan :: "int \<Rightarrow> go_int \<Rightarrow> panic + 'e chan" where
  "makechan lim n =
     (if n <s 0 \<or> lim < sint n then Inl MakechanSizeOutOfRange
      else Inr \<lparr>buf = [], dataqsiz = nat (sint n), closed = False, sendq = []\<rparr>)"

text \<open>
  \<^verbatim>\<open>c <- ev\<close>: panics on a closed channel, appends to the buffer when there is room, and
  otherwise parks the sender with its value. (The runtime hands a value directly to a
  receiver that is parked on the empty channel; here that is the send followed by the
  receiver's next iteration, which takes the value from the buffer or from the parked
  sender.)
\<close>

definition chansend :: "'e chan \<Rightarrow> 'e \<Rightarrow> 'e chan outcome" where
  "chansend c ev =
     (if closed c then Panicked SendOnClosedChannel
      else if length (buf c) < dataqsiz c then Completed (c\<lparr>buf := buf c @ [ev]\<rparr>)
      else Suspended (c\<lparr>sendq := sendq c @ [ev]\<rparr>))"

text \<open>
  One receive, as \<^verbatim>\<open>for ev := range c\<close> performs it. On a closed channel the buffer is
  drained and then the loop ends. On an open channel with a parked sender, the receiver
  takes the head of the buffer and the sender's value enters at the tail (or is taken
  directly when nothing is buffered), and that sender is released. On an open, empty
  channel with no sender the receiver parks.
\<close>

datatype 'e recv = Received 'e "'e chan" | ClosedAndDrained | WouldBlock

definition chanrecv :: "'e chan \<Rightarrow> 'e recv" where
  "chanrecv c =
     (if closed c then
        (case buf c of
           [] \<Rightarrow> ClosedAndDrained
         | x # xs \<Rightarrow> Received x (c\<lparr>buf := xs\<rparr>))
      else
        (case sendq c of
           s # ss \<Rightarrow>
             (case buf c of
                [] \<Rightarrow> Received s (c\<lparr>sendq := ss\<rparr>)
              | x # xs \<Rightarrow> Received x (c\<lparr>buf := xs @ [s], sendq := ss\<rparr>))
         | [] \<Rightarrow>
             (case buf c of
                [] \<Rightarrow> WouldBlock
              | x # xs \<Rightarrow> Received x (c\<lparr>buf := xs\<rparr>))))"

text \<open>
  \<^verbatim>\<open>close(c)\<close>: panics on a channel that is closed already. Closing wakes every parked
  sender, and each of them panics with \<^verbatim>\<open>send on closed channel\<close>.
\<close>

definition closechan :: "'e chan \<Rightarrow> panic + 'e chan" where
  "closechan c =
     (if closed c then Inl CloseOfClosedChannel
      else if sendq c \<noteq> [] then Inl SendOnClosedChannel
      else Inr (c\<lparr>closed := True\<rparr>))"

section \<open>The bus\<close>

subsection \<open>\<^verbatim>\<open>NewMainBus\<close>\<close>

text \<open>
  The allocation loop \<^verbatim>\<open>for i := 0; i < lines; i++ { bus.Conveyors = append(..., make(Conveyor, buffer)) }\<close>.
\<close>

function NewMainBus_loop ::
  "int \<Rightarrow> go_int \<Rightarrow> go_int \<Rightarrow> go_int \<Rightarrow> ('v, 't) MainBus \<Rightarrow> panic + ('v, 't) MainBus" where
  "NewMainBus_loop lim buffer lines i bus =
     (if i <s lines then
        (case makechan lim buffer of
           Inl p \<Rightarrow> Inl p
         | Inr c \<Rightarrow> NewMainBus_loop lim buffer lines (i + 1) (bus\<lparr>Conveyors := Conveyors bus @ [c]\<rparr>))
      else Inr bus)"
  by pat_completeness auto
termination
proof (relation "measure (\<lambda>(lim, buffer, lines, i, bus). nat (sint lines - sint i))")
  show "wf (measure (\<lambda>(lim, buffer, lines, i, bus). nat (sint lines - sint i)))"
    by simp
next
  fix lim :: int and buffer lines i :: go_int and bus :: "('v, 't) MainBus"
    and c :: "('v, 't) Conveyor"
  assume "i <s lines"
  then have lt: "sint i < sint lines"
    by (simp add: word_sless_alt)
  have "sint lines < 2 ^ 63" "- (2 ^ 63) \<le> sint i"
    using sint_lt [of lines] sint_ge [of i] by simp_all
  with lt have "- (2 ^ 63) \<le> sint i + 1 \<and> sint i + 1 < 2 ^ 63"
    by simp
  then have "sint (i + 1) = sint i + 1"
    by (simp add: sint_word_ariths signed_take_bit_int_eq_self)
  with lt show "((lim, buffer, lines, i + 1, bus\<lparr>Conveyors := Conveyors bus @ [c]\<rparr>),
                 (lim, buffer, lines, i, bus))
                \<in> measure (\<lambda>(lim, buffer, lines, i, bus). nat (sint lines - sint i))"
    by simp
qed

text \<open>
  \<^verbatim>\<open>func NewMainBus(resource string, lines int, buffer int) *MainBus\<close>: an odd
  \<^verbatim>\<open>lines\<close> (\<^verbatim>\<open>lines%2 != 0\<close>, remainder truncated towards zero) is incremented, with
  wrap-around, before the loop runs.
\<close>

definition NewMainBus :: "int \<Rightarrow> string \<Rightarrow> go_int \<Rightarrow> go_int \<Rightarrow> panic + ('v, 't) MainBus" where
  "NewMainBus lim resource lines buffer =
     (let lines = (if sint lines smod 2 \<noteq> 0 then lines + 1 else lines)
      in NewMainBus_loop lim buffer lines 0 \<lparr>Resource = resource, Conveyors = []\<rparr>)"

subsection \<open>\<^verbatim>\<open>Produce\<close>\<close>

text \<open>
  \<^verbatim>\<open>rand.Intn(n)\<close> of the standard library: for \<open>n > 0\<close> it returns a pseudo-random
  number of the half-open interval \<open>[0, n)\<close>, each of the \<open>n\<close> values being equally likely
  and successive calls independent; for \<open>n \<le> 0\<close> it panics and returns nothing.
  \<open>Intn n\<close> lists the values a call can return. The value a call did return is an
  argument of \<open>Produce\<close>.
\<close>

definition Intn :: "int \<Rightarrow> int list" where
  "Intn n = (if n \<le> 0 then [] else [0..n - 1])"

text \<open>
  \<^verbatim>\<open>func (bus *MainBus) Produce(ev Event)\<close>, with \<open>idx\<close> the value that
  \<^verbatim>\<open>rand.Intn(len(bus.Conveyors))\<close> returned. The index expression
  \<^verbatim>\<open>bus.Conveyors[idx]\<close> is bounds-checked by Go.
\<close>

definition Produce :: "int \<Rightarrow> ('v, 't) MainBus \<Rightarrow> ('v, 't) Event \<Rightarrow> ('v, 't) MainBus outcome" where
  "Produce idx bus ev =
     (if length (Conveyors bus) = 0 then Completed bus
      else if idx < 0 \<or> int (length (Conveyors bus)) \<le> idx
        then Panicked (IndexOutOfRange idx (length (Conveyors bus)))
      else
        (case chansend (Conveyors bus ! nat idx) ev of
           Completed c \<Rightarrow> Completed (bus\<lparr>Conveyors := (Conveyors bus)[nat idx := c]\<rparr>)
         | Suspended c \<Rightarrow> Suspended (bus\<lparr>Conveyors := (Conveyors bus)[nat idx := c]\<rparr>)
         | Panicked p \<Rightarrow> Panicked p))"

text \<open>
  The call \<^verbatim>\<open>rand.Intn(n)\<close> itself, as \<^verbatim>\<open>math/rand\<close> computes it: it panics for \<open>n \<le> 0\<close>,
  and otherwise returns \<^verbatim>\<open>v % n\<close> for the value \<open>v\<close> that the generator's source yields for
  this call. The library draws \<open>v\<close> from a range \<open>[0, k * n)\<close> whose size is a multiple of
  \<open>n\<close> (it rejects the values above the largest multiple), every value of it being equally
  likely and the values of different calls independent.
\<close>

definition rand_Intn :: "nat \<Rightarrow> int \<Rightarrow> panic + int" where
  "rand_Intn v n = (if n \<le> 0 then Inl InvalidArgumentToIntn else Inr (int v mod n))"

text \<open>
  \<^verbatim>\<open>func (bus *MainBus) Produce(ev Event)\<close> in full, draw included: the guard on an
  empty bus, \<^verbatim>\<open>idx := rand.Intn(len(bus.Conveyors))\<close> with \<open>v\<close> the value of the generator's
  source, and the send \<^verbatim>\<open>bus.Conveyors[idx] <- ev\<close> with its bounds check. \<open>Produce\<close>
  above is the same function with the outcome of the draw given.
\<close>

definition Produce_rand :: "nat \<Rightarrow> ('v, 't) MainBus \<Rightarrow> ('v, 't) Event \<Rightarrow> ('v, 't) MainBus outcome" where
  "Produce_rand v bus ev =
     (if length (Conveyors bus) = 0 then Completed bus
      else
        (case rand_Intn v (int (length (Conveyors bus))) of
           Inl p \<Rightarrow> Panicked p
         | Inr idx \<Rightarrow>
             if idx < 0 \<or> int (length (Conveyors bus)) \<le> idx
               then Panicked (IndexOutOfRange idx (length (Conveyors bus)))
             else
               (case chansend (Conveyors bus ! nat idx) ev of
                  Completed c \<Rightarrow> Completed (bus\<lparr>Conveyors := (Conveyors bus)[nat idx := c]\<rparr>)
                | Suspended c \<Rightarrow> Suspended (bus\<lparr>Conveyors := (Conveyors bus)[nat idx := c]\<rparr>)
                | Panicked p \<Rightarrow> Panicked p)))"

subsection \<open>\<^verbatim>\<open>Close\<close>\<close>

text \<open>\<^verbatim>\<open>for _, c := range bus.Conveyors { close(c) }\<close>: the first panic ends the loop.\<close>

fun Close_loop :: "'e chan list \<Rightarrow> panic + 'e chan list" where
  "Close_loop [] = Inr []"
| "Close_loop (c # cs) =
     (case closechan c of
        Inl p \<Rightarrow> Inl p
      | Inr c' \<Rightarrow> (case Close_loop cs of Inl p \<Rightarrow> Inl p | Inr cs' \<Rightarrow> Inr (c' # cs')))"

definition Close :: "('v, 't) MainBus \<Rightarrow> panic + ('v, 't) MainBus" where
  "Close bus =
     (case Close_loop (Conveyors bus) of
        Inl p \<Rightarrow> Inl p
      | Inr cs \<Rightarrow> Inr (bus\<lparr>Conveyors := cs\<rparr>))"

subsection \<open>\<^verbatim>\<open>Consume\<close>\<close>

text \<open>
  What the bus shares with its consumer goroutines: the bus, the standard output, the
  counter of the \<^verbatim>\<open>sync.WaitGroup\<close>, and the lines whose \<^verbatim>\<open>Consume\<close> has returned.
  A line of output is kept as the values \<^verbatim>\<open>Printf\<close> is given: the bus's resource name,
  the line, and the event whose \<^verbatim>\<open>ID\<close>, \<^verbatim>\<open>Value\<close> and \<^verbatim>\<open>Time\<close> it formats.
\<close>

type_synonym ('v, 't) printed = "string \<times> int \<times> ('v, 't) Event"

record ('v, 't) world =
  bus :: "('v, 't) MainBus"
  stdout :: "('v, 't) printed list"
  wg :: int
  returned :: "int list"

text \<open>
  The loop \<^verbatim>\<open>for ev := range bus.Conveyors[line] { fmt.Printf(...) }\<close>, run until it
  ends or parks on the empty, open conveyor.
\<close>

function Consume_loop ::
  "string \<Rightarrow> int \<Rightarrow> ('v, 't) Conveyor \<Rightarrow> ('v, 't) printed list
     \<Rightarrow> (('v, 't) Conveyor \<times> ('v, 't) printed list) outcome" where
  "Consume_loop res line c out =
     (case chanrecv c of
        Received ev c' \<Rightarrow> Consume_loop res line c' (out @ [(res, line, ev)])
      | ClosedAndDrained \<Rightarrow> Completed (c, out)
      | WouldBlock \<Rightarrow> Suspended (c, out))"
  by pat_completeness auto
termination
  by (relation "measure (\<lambda>(res, line, c, out). length (buf c) + length (sendq c))")
     (auto simp: chanrecv_def split: if_splits list.splits)

text \<open>
  \<^verbatim>\<open>wg.Done()\<close>: the counter goes down by one, and a negative counter panics.
\<close>

definition wg_Done :: "int \<Rightarrow> panic + int" where
  "wg_Done n = (if n - 1 < 0 then Inl NegativeWaitGroupCounter else Inr (n - 1))"

text \<open>
  \<^verbatim>\<open>func (bus *MainBus) Consume(line int, wg *sync.WaitGroup)\<close>, run without
  interruption: it returns (after the deferred \<^verbatim>\<open>wg.Done()\<close>), or it stays parked on its
  conveyor, or it panics on the index \<^verbatim>\<open>bus.Conveyors[line]\<close>.
\<close>

definition Consume :: "int \<Rightarrow> ('v, 't) world \<Rightarrow> ('v, 't) world outcome" where
  "Consume line w =
     (if line < 0 \<or> int (length (Conveyors (bus w))) \<le> line
        then Panicked (IndexOutOfRange line (length (Conveyors (bus w))))
      else
        (case Consume_loop (Resource (bus w)) line (Conveyors (bus w) ! nat line) (stdout w) of
           Completed (c, out) \<Rightarrow>
             (case wg_Done (wg w) of
                Inl p \<Rightarrow> Panicked p
              | Inr n \<Rightarrow>
                  Completed (w\<lparr>bus := (bus w)\<lparr>Conveyors := (Conveyors (bus w))[nat line := c]\<rparr>,
                                stdout := out, wg := n, returned := line # returned w\<rparr>))
         | Suspended (c, out) \<Rightarrow>
             Suspended (w\<lparr>bus := (bus w)\<lparr>Conveyors := (Conveyors (bus w))[nat line := c]\<rparr>,
                          stdout := out\<rparr>)
         | Panicked p \<Rightarrow> Panicked p))"

section \<open>Producers and consumers running together\<close>

text \<open>
  The goroutines of a program using one bus interleave. A schedule is the list of their
  atomic steps: a call of \<^verbatim>\<open>Produce\<close> (with the index \<^verbatim>\<open>rand.Intn\<close> returned) up to
  its return or its parking, one iteration of the loop of the consumer of a line, and a
  call of \<^verbatim>\<open>Close\<close>. A consumer that is parked, or has returned, does nothing when it is
  scheduled. The first panic ends the process. The range expression
  \<^verbatim>\<open>bus.Conveyors[line]\<close> is evaluated once by Go; the number of conveyors never changes,
  so checking the index at every iteration gives the same result.
\<close>

datatype ('v, 't) action =
    Produce_call int "('v, 't) Event"
  | Consume_iter int
  | Close_call

definition Consume_step :: "int \<Rightarrow> ('v, 't) world \<Rightarrow> panic + ('v, 't) world" where
  "Consume_step line w =
     (if line < 0 \<or> int (length (Conveyors (bus w))) \<le> line
        then Inl (IndexOutOfRange line (length (Conveyors (bus w))))
      else if line \<in> set (returned w) then Inr w
      else
        (case chanrecv (Conveyors (bus w) ! nat line) of
           Received ev c \<Rightarrow>
             Inr (w\<lparr>bus := (bus w)\<lparr>Conveyors := (Conveyors (bus w))[nat line := c]\<rparr>,
                    stdout := stdout w @ [(Resource (bus w), line, ev)]\<rparr>)
         | ClosedAndDrained \<Rightarrow>
             (case wg_Done (wg w) of
                Inl p \<Rightarrow> Inl p
              | Inr n \<Rightarrow> Inr (w\<lparr>wg := n, returned := line # returned w\<rparr>))
         | WouldBlock \<Rightarrow> Inr w))"

fun step :: "('v, 't) world \<Rightarrow> ('v, 't) action \<Rightarrow> panic + ('v, 't) world" where
  "step w (Produce_call idx ev) =
     (case Produce idx (bus w) ev of
        Completed b \<Rightarrow> Inr (w\<lparr>bus := b\<rparr>)
      | Suspended b \<Rightarrow> Inr (w\<lparr>bus := b\<rparr>)
      | Panicked p \<Rightarrow> Inl p)"
| "step w (Consume_iter line) = Consume_step line w"
| "step w Close_call =
     (case Close (bus w) of
        Inl p \<Rightarrow> Inl p
      | Inr b \<Rightarrow> Inr (w\<lparr>bus := b\<rparr>))"

fun exec :: "('v, 't) world \<Rightarrow> ('v, 't) action list \<Rightarrow> panic + ('v, 't) world" where
  "exec w [] = Inr w"
| "exec w (a # as) = (case step w a of Inl p \<Rightarrow> Inl p | Inr w' \<Rightarrow> exec w' as)"

text \<open>
  The start of a program as \<^verbatim>\<open>main\<close> sets it up: one consumer goroutine per conveyor,
  each after a \<^verbatim>\<open>wg.Add(1)\<close>, and nothing printed yet.
\<close>

definition start :: "('v, 't) MainBus \<Rightarrow> ('v, 't) world" where
  "start b = \<lparr>bus = b, stdout = [], wg = int (length (Conveyors b)), returned = []\<rparr>"

text \<open>
  The calls of \<^verbatim>\<open>Produce\<close> in a schedule, each with the index drawn for it; the events
  they produce; the events produced into one line; and the events a line's consumer
  printed.
\<close>

definition calls :: "('v, 't) action list \<Rightarrow> (int \<times> ('v, 't) Event) list" where
  "calls as = concat (map (\<lambda>a. case a of Produce_call idx ev \<Rightarrow> [(idx, ev)] | _ \<Rightarrow> []) as)"


definition sent :: "('v, 't) action list \<Rightarrow> int \<Rightarrow> ('v, 't) Event list" where
  "sent as line = map snd (filter (\<lambda>c. fst c = line) (calls as))"

definition delivered :: "('v, 't) world \<Rightarrow> int \<Rightarrow> ('v, 't) Event list" where
  "delivered w line = map (\<lambda>p. snd (snd p)) (filter (\<lambda>p. fst (snd p) = line) (stdout w))"

text \<open>The events that are in a conveyor: buffered, or held by a parked sender.\<close>

definition pending :: "'e chan \<Rightarrow> 'e list" where
  "pending c = buf c @ sendq c"

text \<open>
  A conveyor as \<^verbatim>\<open>make(Conveyor, buffer)\<close> returns it, and the states of a conveyor that
  the operations keep to: a sender is parked only on an open conveyor whose buffer is
  full, and the buffer never holds more than its size.
\<close>

definition fresh_chan :: "go_int \<Rightarrow> 'e chan" where
  "fresh_chan buffer = \<lparr>buf = [], dataqsiz = nat (sint buffer), closed = False, sendq = []\<rparr>"

definition chan_ok :: "'e chan \<Rightarrow> bool" where
  "chan_ok c \<longleftrightarrow>
     length (buf c) \<le> dataqsiz c \<and>
     (sendq c \<noteq> [] \<longrightarrow> \<not> closed c \<and> length (buf c) = dataqsiz c)"

definition bus_ok :: "('v, 't) MainBus \<Rightarrow> bool" where
  "bus_ok b \<longleftrightarrow> list_all chan_ok (Conveyors b)"

text \<open>The conveyor of a line.\<close>

definition lane :: "('v, 't) world \<Rightarrow> int \<Rightarrow> ('v, 't) Conveyor" where
  "lane w line = Conveyors (bus w) ! nat line"

text \<open>
  The history of a line: what its consumer has printed, followed by what is still in its
  conveyor.
\<close>

definition line_of :: "('v, 't) world \<Rightarrow> int \<Rightarrow> ('v, 't) Event list" where
  "line_of w line = delivered w line @ pending (lane w line)"

text \<open>
  A consumer is recorded as returned only for a line of the bus whose conveyor is closed
  and empty.
\<close>

definition ret_ok :: "('v, 't) world \<Rightarrow> bool" where
  "ret_ok w \<longleftrightarrow>
     list_all (\<lambda>line. 0 \<le> line \<and> line < int (length (Conveyors (bus w))) \<and>
                      closed (lane w line) \<and> buf (lane w line) = []) (returned w)"

section \<open>Values of the example program\<close>

text \<open>
  The events and buses of \<^verbatim>\<open>main\<close>, at a small size: an iron plate with a given id, a
  bus for iron and one for copper with two conveyors of capacity 1, a closed conveyor
  holding given events, and the worlds and schedules at which the theorems below are
  evaluated.
\<close>

definition iron_event :: "int \<Rightarrow> (string, nat) Event" where
  "iron_event k = \<lparr>ID = k, Resource = ''iron'', Value = ''Iron Plate'', Time = nat k\<rparr>"

definition demo_bus :: "(string, nat) MainBus" where
  "demo_bus = \<lparr>Resource = ''iron'', Conveyors = [fresh_chan 1, fresh_chan 1]\<rparr>"

definition copper_bus :: "(string, nat) MainBus" where
  "copper_bus = \<lparr>Resource = ''copper'', Conveyors = [fresh_chan 1, fresh_chan 1]\<rparr>"

definition closed_chan :: "'e list \<Rightarrow> 'e chan" where
  "closed_chan xs = \<lparr>buf = xs, dataqsiz = 1, closed = True, sendq = []\<rparr>"

definition loaded_world :: "(string, nat) world" where
  "loaded_world =
     \<lparr>bus = \<lparr>Resource = ''iron'', Conveyors = [(fresh_chan 1)\<lparr>buf := [iron_event 0]\<rparr>, fresh_chan 1]\<rparr>,
      stdout = [], wg = 2, returned = []\<rparr>"

definition drained_world :: "(string, nat) world" where
  "drained_world =
     \<lparr>bus = \<lparr>Resource = ''iron'', Conveyors = [closed_chan [], closed_chan []]\<rparr>,
      stdout = [(''iron'', 0, iron_event 0)], wg = 1, returned = [0]\<rparr>"

definition fifo_schedule :: "(string, nat) action list" where
  "fifo_schedule =
     [Produce_call 0 (iron_event 0), Produce_call 0 (iron_event 1), Consume_iter 0,
      Produce_call 1 (iron_event 2), Consume_iter 0]"

definition fifo_world :: "(string, nat) world" where
  "fifo_world =
     \<lparr>bus = \<lparr>Resource = ''iron'',
              Conveyors = [fresh_chan 1, (fresh_chan 1)\<lparr>buf := [iron_event 2]\<rparr>]\<rparr>,
      stdout = [(''iron'', 0, iron_event 0), (''iron'', 0, iron_event 1)],
      wg = 2, returned = []\<rparr>"

definition parked_bus :: "(string, nat) MainBus" where
  "parked_bus =
     \<lparr>Resource = ''iron'',
      Conveyors = [(fresh_chan 1)\<lparr>buf := [iron_event 0], sendq := [iron_event 1]\<rparr>, fresh_chan 1]\<rparr>"

definition side_schedule :: "(string, nat) action list" where
  "side_schedule = [Produce_call 1 (iron_event 2), Consume_iter 1]"

definition side_world :: "(string, nat) world" where
  "side_world =
     \<lparr>bus = parked_bus, stdout = [(''iron'', 1, iron_event 2)], wg = 2, returned = []\<rparr>"



section \<open>Construction\<close>

declare NewMainBus_loop.simps [simp del]
declare Consume_loop.simps [simp del]

lemma smod_2_odd: "(k::int) smod 2 \<noteq> 0 \<longleftrightarrow> odd k"
proof (cases "even k")
  case True
  then show ?thesis by (simp add: signed_modulo_int_def)
next
  case False
  then have "\<bar>k\<bar> mod 2 = 1" "k \<noteq> 0"
    by presburger+
  with False show ?thesis by (simp add: signed_modulo_int_def sgn_if)
qed

lemma sint_plus_1: "sint (i::go_int) < 2 ^ 63 - 1 \<Longrightarrow> sint (i + 1) = sint i + 1"
proof -
  assume a: "sint i < 2 ^ 63 - 1"
  have "- (2 ^ 63) \<le> sint i" using sint_ge [of i] by simp
  with a have "- (2 ^ 63) \<le> sint i + 1 \<and> sint i + 1 < 2 ^ 63" by simp
  then show ?thesis
    by (simp add: sint_word_ariths signed_take_bit_int_eq_self)
qed

lemma sint_less_max: "i <s (n::go_int) \<Longrightarrow> sint i < 2 ^ 63 - 1"
  using sint_lt [of n] by (simp add: word_sless_alt)

lemma makechan_ok:
  "0 \<le> sint buffer \<Longrightarrow> sint buffer \<le> lim \<Longrightarrow> makechan lim buffer = Inr (fresh_chan buffer)"
  by (simp add: makechan_def fresh_chan_def word_sless_alt)

lemma NewMainBus_loop_done: "\<not> i <s lines \<Longrightarrow> NewMainBus_loop lim buffer lines i b = Inr b"
  by (subst NewMainBus_loop.simps) simp

lemma NewMainBus_loop_lanes:
  "sint i \<le> sint lines \<Longrightarrow> 0 \<le> sint buffer \<Longrightarrow> sint buffer \<le> lim \<Longrightarrow>
   NewMainBus_loop lim buffer lines i (b :: ('v, 't) MainBus) =
     Inr (b\<lparr>Conveyors := Conveyors b @ replicate (nat (sint lines - sint i)) (fresh_chan buffer)\<rparr>)"
proof (induction lim buffer lines i b rule: NewMainBus_loop.induct)
  case (1 lim buffer lines i b)
  show ?case
  proof (cases "i <s lines")
    case False
    with "1.prems" have "sint lines - sint i = 0"
      by (simp add: word_sless_alt)
    with False show ?thesis by (simp add: NewMainBus_loop_done)
  next
    case True
    then have lt: "sint i < sint lines" by (simp add: word_sless_alt)
    have s: "sint (i + 1) = sint i + 1"
      using True by (intro sint_plus_1 sint_less_max)
    have mk: "makechan lim buffer = (Inr (fresh_chan buffer) :: panic + ('v, 't) Conveyor)"
      using "1.prems" by (simp add: makechan_ok)
    have n: "nat (sint lines - sint i) = Suc (nat (sint lines - (sint i + 1)))"
      using lt by simp
    have "NewMainBus_loop lim buffer lines i b =
          NewMainBus_loop lim buffer lines (i + 1) (b\<lparr>Conveyors := Conveyors b @ [fresh_chan buffer]\<rparr>)"
      using True mk by (subst NewMainBus_loop.simps) simp
    also have "\<dots> = Inr (b\<lparr>Conveyors := (Conveyors b @ [fresh_chan buffer]) @
                         replicate (nat (sint lines - sint (i + 1))) (fresh_chan buffer)\<rparr>)"
      using "1.IH" [OF True mk] lt s "1.prems" by simp
    finally show ?thesis
      by (simp add: s n)
  qed
qed

lemma NewMainBus_lanes:
  assumes "0 \<le> sint n" "sint n < 2 ^ 63 - 1" "0 \<le> sint buffer" "sint buffer \<le> lim"
  shows "NewMainBus lim resource n buffer =
           Inr \<lparr>Resource = resource,
                Conveyors = replicate (nat (if even (sint n) then sint n else sint n + 1)) (fresh_chan buffer)\<rparr>"
proof (cases "even (sint n)")
  case True
  then show ?thesis
    using assms NewMainBus_loop_lanes [of 0 n buffer lim "\<lparr>Resource = resource, Conveyors = []\<rparr>"]
    by (simp add: NewMainBus_def smod_2_odd)
next
  case False
  have s: "sint (n + 1) = sint n + 1" using assms by (simp add: sint_plus_1)
  show ?thesis
    using False assms s NewMainBus_loop_lanes [of 0 "n + 1" buffer lim "\<lparr>Resource = resource, Conveyors = []\<rparr>"]
    by (simp add: NewMainBus_def smod_2_odd)
qed

lemma NewMainBus_no_lanes:
  assumes "sint n \<le> 0"
  shows "NewMainBus lim resource n buffer = Inr \<lparr>Resource = resource, Conveyors = []\<rparr>"
proof (cases "even (sint n)")
  case True
  then show ?thesis using assms
    by (simp add: NewMainBus_def smod_2_odd word_sless_alt NewMainBus_loop_done)
next
  case False
  with assms have "sint n < 0" by (cases "sint n = 0") auto
  then have "sint (n + 1) = sint n + 1" "sint n + 1 \<le> 0"
    by (simp_all add: sint_plus_1)
  then show ?thesis using False
    by (simp add: NewMainBus_def smod_2_odd word_sless_alt NewMainBus_loop_done)
qed

text \<open>
  C1 (as amended). For every requested lane count \<open>N\<close> with \<open>0 \<le> N < 2\<^sup>6\<^sup>3 - 1\<close> and every
  capacity from 0 up to the runtime's bound on a channel's size, \<open>NewMainBus\<close> returns a
  bus, carrying the resource name, with \<open>N\<close> conveyors when \<open>N\<close> is even and \<open>N + 1\<close> when \<open>N\<close>
  is odd, each one empty, open and of the given capacity; for \<open>N = 0\<close> the bus has no
  conveyor, whatever the capacity.
\<close>

theorem NewMainBus_lane_count:
  assumes "0 \<le> sint n" and "sint n < 2 ^ 63 - 1"
    and "n = 0 \<or> (0 \<le> sint buffer \<and> sint buffer \<le> lim)"
  shows "\<exists>b :: ('v, 't) MainBus.
           NewMainBus lim resource n buffer = Inr b \<and> Resource b = resource \<and>
           int (length (Conveyors b)) = (if even (sint n) then sint n else sint n + 1) \<and>
           list_all (\<lambda>c. c = fresh_chan buffer) (Conveyors b)"
proof (cases "n = 0")
  case True
  then show ?thesis by (simp add: NewMainBus_no_lanes)
next
  case False
  with assms have "0 \<le> sint buffer" "sint buffer \<le> lim" by simp_all
  then have "NewMainBus lim resource n buffer =
      (Inr \<lparr>Resource = resource,
            Conveyors = replicate (nat (if even (sint n) then sint n else sint n + 1)) (fresh_chan buffer)\<rparr>
        :: panic + ('v, 't) MainBus)"
    using assms(1,2) by (rule NewMainBus_lanes [rotated 2])
  with assms(1) show ?thesis
    by (simp add: list_all_length)
qed

theorem NewMainBus_lane_count_witness:
  "0 \<le> sint (3 :: go_int) \<and> sint (3 :: go_int) < 2 ^ 63 - 1 \<and> 0 \<le> sint (5 :: go_int) \<and>
   (\<exists>b :: (string, nat) MainBus. NewMainBus 100 ''iron'' 3 5 = Inr b \<and> Resource b = ''iron'' \<and>
      length (Conveyors b) = 4 \<and> list_all (\<lambda>c. c = fresh_chan 5) (Conveyors b))"
  using NewMainBus_lane_count [of 3 5 100 "''iron''"] by simp

text \<open>
  The claim as stated fails at both ends. At \<open>N = 2\<^sup>6\<^sup>3 - 1\<close>, which is odd, the increment
  wraps around to \<open>- 2\<^sup>6\<^sup>3\<close>, the loop does not run and the bus has no conveyor instead of
  \<open>N + 1\<close>. With two conveyors to allocate and the capacity \<open>- 1\<close>, \<^verbatim>\<open>make\<close> panics.
\<close>

theorem NewMainBus_lane_count_counterexample:
  "NewMainBus 100 ''iron'' 0x7FFFFFFFFFFFFFFF 5
     = (Inr \<lparr>Resource = ''iron'', Conveyors = []\<rparr> :: panic + (string, nat) MainBus) \<and>
   NewMainBus 100 ''iron'' 2 (- 1)
     = (Inl MakechanSizeOutOfRange :: panic + (string, nat) MainBus)"
  by (simp add: NewMainBus_def smod_2_odd word_sless_alt makechan_def NewMainBus_loop.simps)

text \<open>
  C9. For every negative requested lane count, whatever the capacity and the runtime's
  bound, \<open>NewMainBus\<close> returns a bus with no conveyor: the correction of an odd count
  raises it to at most 0, so the loop never runs and \<^verbatim>\<open>make\<close> is never called.
\<close>

theorem NewMainBus_negative_lines:
  "sint n < 0 \<Longrightarrow>
     NewMainBus lim resource n buffer = Inr \<lparr>Resource = resource, Conveyors = []\<rparr>"
  by (simp add: NewMainBus_no_lanes)

theorem NewMainBus_negative_lines_witness:
  "sint (- 3 :: go_int) < 0 \<and>
   NewMainBus 100 ''iron'' (- 3) (- 1)
     = (Inr \<lparr>Resource = ''iron'', Conveyors = []\<rparr> :: panic + (string, nat) MainBus)"
  using NewMainBus_negative_lines [of "- 3" 100 "''iron''" "- 1"] by simp

section \<open>Conveyors\<close>


lemma chansend_Completed:
  "chansend c ev = Completed c' \<longleftrightarrow>
     \<not> closed c \<and> length (buf c) < dataqsiz c \<and> c' = c\<lparr>buf := buf c @ [ev]\<rparr>"
  by (auto simp: chansend_def)

lemma chansend_Suspended:
  "chansend c ev = Suspended c' \<longleftrightarrow>
     \<not> closed c \<and> dataqsiz c \<le> length (buf c) \<and> c' = c\<lparr>sendq := sendq c @ [ev]\<rparr>"
  by (auto simp: chansend_def)

lemma chansend_Panicked:
  "chansend c ev = Panicked p \<longleftrightarrow> closed c \<and> p = SendOnClosedChannel"
  by (auto simp: chansend_def)

lemma chansend_keeps:
  assumes "chan_ok c" and "chansend c ev = Completed c' \<or> chansend c ev = Suspended c'"
  shows "chan_ok c'" and "pending c' = pending c @ [ev]" and "closed c' = closed c"
    and "dataqsiz c' = dataqsiz c"
  using assms
  by (auto simp: chansend_Completed chansend_Suspended chan_ok_def pending_def)

lemma chanrecv_ClosedAndDrained:
  "chanrecv c = ClosedAndDrained \<longleftrightarrow> closed c \<and> buf c = []"
  by (auto simp: chanrecv_def split: list.splits)

lemma chanrecv_WouldBlock:
  "chanrecv c = WouldBlock \<longleftrightarrow> \<not> closed c \<and> buf c = [] \<and> sendq c = []"
  by (auto simp: chanrecv_def split: list.splits)

lemma chanrecv_Received:
  assumes "chan_ok c" and "chanrecv c = Received ev c'"
  shows "chan_ok c'" and "pending c = ev # pending c'" and "closed c' = closed c"
    and "dataqsiz c' = dataqsiz c"
  using assms
  by (auto simp: chanrecv_def chan_ok_def pending_def split: if_splits list.splits)

lemma closechan_Inr:
  "closechan c = Inr c' \<longleftrightarrow> \<not> closed c \<and> sendq c = [] \<and> c' = c\<lparr>closed := True\<rparr>"
  by (auto simp: closechan_def)

lemma closechan_keeps:
  assumes "chan_ok c" and "closechan c = Inr c'"
  shows "chan_ok c'" and "pending c' = pending c" and "buf c' = buf c" and "closed c'"
    and "dataqsiz c' = dataqsiz c"
  using assms by (auto simp: closechan_Inr chan_ok_def pending_def)

lemma Close_loop_Inr:
  "Close_loop cs = Inr cs' \<Longrightarrow> list_all2 (\<lambda>c c'. closechan c = Inr c') cs cs'"
  by (induction cs arbitrary: cs') (auto split: sum.splits)

lemma Close_Inr:
  assumes "Close b = Inr b'"
  shows "Resource b' = Resource b" and "length (Conveyors b') = length (Conveyors b)"
    and "\<And>i. i < length (Conveyors b) \<Longrightarrow> closechan (Conveyors b ! i) = Inr (Conveyors b' ! i)"
proof -
  from assms obtain cs where cs: "Close_loop (Conveyors b) = Inr cs" "b' = b\<lparr>Conveyors := cs\<rparr>"
    by (auto simp: Close_def split: sum.splits)
  then have l: "list_all2 (\<lambda>c c'. closechan c = Inr c') (Conveyors b) (Conveyors b')"
    by (simp add: Close_loop_Inr)
  show "Resource b' = Resource b" using cs by simp
  show "length (Conveyors b') = length (Conveyors b)"
    using l by (simp add: list_all2_lengthD)
  show "\<And>i. i < length (Conveyors b) \<Longrightarrow> closechan (Conveyors b ! i) = Inr (Conveyors b' ! i)"
    using list_all2_nthD [OF l] by simp
qed


section \<open>Steps\<close>

lemma bus_ok_nth: "bus_ok b \<Longrightarrow> i < length (Conveyors b) \<Longrightarrow> chan_ok (Conveyors b ! i)"
  by (simp add: bus_ok_def list_all_length)

lemma bus_ok_update:
  "bus_ok b \<Longrightarrow> chan_ok c \<Longrightarrow> bus_ok (b\<lparr>Conveyors := (Conveyors b)[i := c]\<rparr>)"
  using set_update_subset_insert [of "Conveyors b" i c]
  by (auto simp: bus_ok_def list_all_iff)

lemma Produce_no_lanes: "Conveyors b = [] \<Longrightarrow> Produce idx b ev = Completed b"
  by (simp add: Produce_def)

lemma Produce_returns:
  assumes "Produce idx b ev = Completed b' \<or> Produce idx b ev = Suspended b'"
    and "Conveyors b \<noteq> []"
  obtains c' where "0 \<le> idx" and "idx < int (length (Conveyors b))"
    and "chansend (Conveyors b ! nat idx) ev = Completed c' \<or>
         chansend (Conveyors b ! nat idx) ev = Suspended c'"
    and "b' = b\<lparr>Conveyors := (Conveyors b)[nat idx := c']\<rparr>"
  using assms by (auto simp: Produce_def split: if_splits outcome.splits)

lemma sent_Nil [simp]: "sent [] line = []"
  by (simp add: sent_def calls_def)

lemma sent_Cons_Produce [simp]:
  "sent (Produce_call idx ev # as) line = (if idx = line then ev # sent as line else sent as line)"
  by (simp add: sent_def calls_def)

lemma sent_Cons_Consume [simp]: "sent (Consume_iter i # as) line = sent as line"
  by (simp add: sent_def calls_def)

lemma sent_Cons_Close [simp]: "sent (Close_call # as) line = sent as line"
  by (simp add: sent_def calls_def)

lemma sent_append [simp]: "sent (as @ bs) line = sent as line @ sent bs line"
  by (simp add: sent_def calls_def)

lemma step_keeps:
  assumes "bus_ok (bus w)" and "step w a = Inr w'"
  shows "bus_ok (bus w')"
    and "Resource (bus w') = Resource (bus w)"
    and "length (Conveyors (bus w')) = length (Conveyors (bus w))"
    and "0 \<le> line \<Longrightarrow> line < int (length (Conveyors (bus w))) \<Longrightarrow>
           line_of w' line = line_of w line @ sent [a] line"
proof -
  have "bus_ok (bus w') \<and> Resource (bus w') = Resource (bus w) \<and>
        length (Conveyors (bus w')) = length (Conveyors (bus w)) \<and>
        (0 \<le> line \<longrightarrow> line < int (length (Conveyors (bus w))) \<longrightarrow>
           line_of w' line = line_of w line @ sent [a] line)"
  proof (cases a)
    case (Produce_call idx ev)
    show ?thesis
    proof (cases "Conveyors (bus w) = []")
      case True
      with assms Produce_call show ?thesis
        by (simp add: Produce_no_lanes)
    next
      case False
      from assms(2) Produce_call obtain b' where
        b': "Produce idx (bus w) ev = Completed b' \<or> Produce idx (bus w) ev = Suspended b'"
        and w': "w' = w\<lparr>bus := b'\<rparr>"
        by (auto split: outcome.splits)
      from b' False obtain c' where
        idx: "0 \<le> idx" "idx < int (length (Conveyors (bus w)))"
        and snd: "chansend (Conveyors (bus w) ! nat idx) ev = Completed c' \<or>
                  chansend (Conveyors (bus w) ! nat idx) ev = Suspended c'"
        and b'_eq: "b' = (bus w)\<lparr>Conveyors := (Conveyors (bus w))[nat idx := c']\<rparr>"
        by (rule Produce_returns)
      have ok: "chan_ok (Conveyors (bus w) ! nat idx)"
        using assms(1) idx by (simp add: bus_ok_def list_all_length)
      note k = chansend_keeps [OF ok snd]
      have "bus_ok b'"
        using assms(1) k(1) unfolding b'_eq by (rule bus_ok_update)
      moreover have "0 \<le> line \<longrightarrow> line < int (length (Conveyors (bus w))) \<longrightarrow>
           line_of w' line = line_of w line @ sent [a] line"
        using idx k(2) Produce_call
        by (auto simp: line_of_def lane_def delivered_def w' b'_eq nth_list_update)
      ultimately show ?thesis
        by (simp add: w' b'_eq)
    qed
  next
    case (Consume_iter i)
    with assms(2) have cs: "Consume_step i w = Inr w'" by simp
    show ?thesis
    proof (cases "i \<in> set (returned w)")
      case True
      with cs assms(1) Consume_iter show ?thesis
        by (auto simp: Consume_step_def split: if_splits)
    next
      case False
      with cs have i: "0 \<le> i" "i < int (length (Conveyors (bus w)))"
        by (auto simp: Consume_step_def split: if_splits)
      have ok: "chan_ok (Conveyors (bus w) ! nat i)"
        using assms(1) i by (simp add: bus_ok_def list_all_length)
      show ?thesis
      proof (cases "chanrecv (Conveyors (bus w) ! nat i)")
        case (Received ev c)
        note k = chanrecv_Received [OF ok Received]
        from cs False i Received have w': "w' = w\<lparr>bus := (bus w)\<lparr>Conveyors := (Conveyors (bus w))[nat i := c]\<rparr>,
                    stdout := stdout w @ [(Resource (bus w), i, ev)]\<rparr>"
          by (simp add: Consume_step_def)
        have "bus_ok (bus w')"
          using bus_ok_update [OF assms(1) k(1)] by (simp add: w')
        moreover have "0 \<le> line \<longrightarrow> line < int (length (Conveyors (bus w))) \<longrightarrow>
           line_of w' line = line_of w line @ sent [a] line"
          using i k(2) Consume_iter
          by (auto simp: line_of_def lane_def delivered_def w' nth_list_update)
        ultimately show ?thesis
          by (simp add: w')
      next
        case ClosedAndDrained
        with cs False i assms(1) Consume_iter show ?thesis
          by (auto simp: Consume_step_def line_of_def lane_def delivered_def split: sum.splits)
      next
        case WouldBlock
        with cs False i assms(1) Consume_iter show ?thesis
          by (auto simp: Consume_step_def)
      qed
    qed
  next
    case Close_call
    with assms(2) have cl: "Close (bus w) = Inr (bus w')" and w': "w' = w\<lparr>bus := bus w'\<rparr>"
      by (auto split: sum.splits)
    note c = Close_Inr [OF cl]
    have "bus_ok (bus w')"
      unfolding bus_ok_def list_all_length
    proof (intro allI impI)
      fix n assume "n < length (Conveyors (bus w'))"
      then have n: "n < length (Conveyors (bus w))" using c(2) by simp
      then have "chan_ok (Conveyors (bus w) ! n)"
        using assms(1) by (simp add: bus_ok_def list_all_length)
      then show "chan_ok (Conveyors (bus w') ! n)"
        using c(3) [OF n] by (rule closechan_keeps)
    qed
    moreover have "0 \<le> line \<longrightarrow> line < int (length (Conveyors (bus w))) \<longrightarrow>
           line_of w' line = line_of w line @ sent [a] line"
    proof (intro impI)
      assume l: "0 \<le> line" "line < int (length (Conveyors (bus w)))"
      then have n: "nat line < length (Conveyors (bus w))" by simp
      then have "chan_ok (Conveyors (bus w) ! nat line)"
        using assms(1) by (simp add: bus_ok_def list_all_length)
      then have "pending (Conveyors (bus w') ! nat line) = pending (Conveyors (bus w) ! nat line)"
        using c(3) [OF n] by (rule closechan_keeps)
      moreover have "stdout w' = stdout w" by (subst w') simp
      ultimately show "line_of w' line = line_of w line @ sent [a] line"
        using Close_call by (simp add: line_of_def lane_def delivered_def)
    qed
    ultimately show ?thesis using c by simp
  qed
  then show "bus_ok (bus w')"
    and "Resource (bus w') = Resource (bus w)"
    and "length (Conveyors (bus w')) = length (Conveyors (bus w))"
    and "0 \<le> line \<Longrightarrow> line < int (length (Conveyors (bus w))) \<Longrightarrow>
           line_of w' line = line_of w line @ sent [a] line"
    by simp_all
qed

lemma exec_keeps:
  assumes "bus_ok (bus w)" and "exec w as = Inr w'"
  shows "bus_ok (bus w')"
    and "Resource (bus w') = Resource (bus w)"
    and "length (Conveyors (bus w')) = length (Conveyors (bus w))"
    and "0 \<le> line \<Longrightarrow> line < int (length (Conveyors (bus w))) \<Longrightarrow>
           line_of w' line = line_of w line @ sent as line"
proof -
  have "bus_ok (bus w') \<and> Resource (bus w') = Resource (bus w) \<and>
        length (Conveyors (bus w')) = length (Conveyors (bus w)) \<and>
        (0 \<le> line \<longrightarrow> line < int (length (Conveyors (bus w))) \<longrightarrow>
           line_of w' line = line_of w line @ sent as line)"
    using assms
  proof (induction as arbitrary: w)
    case Nil
    then show ?case by simp
  next
    case (Cons a as)
    from Cons.prems(2) obtain w1 where s: "step w a = Inr w1" and e: "exec w1 as = Inr w'"
      by (auto split: sum.splits)
    note k = step_keeps [OF Cons.prems(1) s]
    from Cons.IH [OF k(1) e] k(2,3) k(4) [of line] show ?case
      using sent_append [of "[a]" as line] by (auto simp del: sent_append)
  qed
  then show "bus_ok (bus w')"
    and "Resource (bus w') = Resource (bus w)"
    and "length (Conveyors (bus w')) = length (Conveyors (bus w))"
    and "0 \<le> line \<Longrightarrow> line < int (length (Conveyors (bus w))) \<Longrightarrow>
           line_of w' line = line_of w line @ sent as line"
    by simp_all
qed

section \<open>Consumers\<close>

lemma start_ok: "list_all chan_ok (Conveyors b) \<Longrightarrow> bus_ok (bus (start b)) \<and> ret_ok (start b)"
  by (simp add: start_def bus_ok_def ret_ok_def)

lemma Close_Inr_open:
  assumes "Close b = Inr b'" and "i < length (Conveyors b)"
  shows "\<not> closed (Conveyors b ! i)" and "sendq (Conveyors b ! i) = []"
    and "Conveyors b' ! i = (Conveyors b ! i)\<lparr>closed := True\<rparr>"
  using Close_Inr(3) [OF assms] by (simp_all add: closechan_Inr)

lemma ret_ok_lanes:
  assumes "ret_ok w" and "returned w' = returned w"
    and "length (Conveyors (bus w')) = length (Conveyors (bus w))"
    and "\<And>line. line \<in> set (returned w) \<Longrightarrow> lane w' line = lane w line"
  shows "ret_ok w'"
  using assms by (simp add: ret_ok_def list_all_iff)

lemma chanrecv_open:
  assumes "\<not> closed c" and "pending c = x # xs"
  shows "\<exists>c'. chanrecv c = Received x c' \<and> pending c' = xs \<and> \<not> closed c' \<and>
           c'\<lparr>buf := [], sendq := []\<rparr> = c\<lparr>buf := [], sendq := []\<rparr>"
proof (cases "buf c")
  case Nil
  with assms show ?thesis
    by (cases "sendq c") (simp_all add: chanrecv_def pending_def)
next
  case (Cons y ys)
  with assms show ?thesis
    by (cases "sendq c") (simp_all add: chanrecv_def pending_def)
qed

lemma step_ret_ok:
  assumes "bus_ok (bus w)" and "ret_ok w" and "step w a = Inr w'"
  shows "ret_ok w'"
proof (cases a)
  case (Produce_call idx ev)
  show ?thesis
  proof (cases "Conveyors (bus w) = []")
    case True
    with assms Produce_call show ?thesis
      by (simp add: Produce_no_lanes)
  next
    case False
    from assms(3) Produce_call obtain b' where
      b': "Produce idx (bus w) ev = Completed b' \<or> Produce idx (bus w) ev = Suspended b'"
      and w': "w' = w\<lparr>bus := b'\<rparr>"
      by (auto split: outcome.splits)
    from b' False obtain c' where
      idx: "0 \<le> idx" "idx < int (length (Conveyors (bus w)))"
      and snd: "chansend (Conveyors (bus w) ! nat idx) ev = Completed c' \<or>
                chansend (Conveyors (bus w) ! nat idx) ev = Suspended c'"
      and b'_eq: "b' = (bus w)\<lparr>Conveyors := (Conveyors (bus w))[nat idx := c']\<rparr>"
      by (rule Produce_returns)
    from snd have op: "\<not> closed (Conveyors (bus w) ! nat idx)"
      by (auto simp: chansend_Completed chansend_Suspended)
    have L: "lane w' line = lane w line" if "line \<in> set (returned w)" for line
    proof -
      from that assms(2) have "0 \<le> line" "closed (lane w line)"
        by (simp_all add: ret_ok_def list_all_iff)
      with op idx show ?thesis
        by (auto simp: lane_def w' b'_eq nth_list_update)
    qed
    show ?thesis
      by (rule ret_ok_lanes [OF assms(2) _ _ L]) (simp_all add: w' b'_eq)
  qed
next
  case (Consume_iter i)
  with assms(3) have cs: "Consume_step i w = Inr w'" by simp
  show ?thesis
  proof (cases "i \<in> set (returned w)")
    case True
    with cs assms(2) show ?thesis
      by (auto simp: Consume_step_def split: if_splits)
  next
    case False
    with cs have i: "0 \<le> i" "i < int (length (Conveyors (bus w)))"
      by (auto simp: Consume_step_def split: if_splits)
    show ?thesis
    proof (cases "chanrecv (Conveyors (bus w) ! nat i)")
      case (Received ev c)
      from cs False i Received have w': "w' = w\<lparr>bus := (bus w)\<lparr>Conveyors := (Conveyors (bus w))[nat i := c]\<rparr>,
                  stdout := stdout w @ [(Resource (bus w), i, ev)]\<rparr>"
        by (simp add: Consume_step_def)
      have L: "lane w' line = lane w line" if "line \<in> set (returned w)" for line
      proof -
        from that assms(2) False have "0 \<le> line" "line \<noteq> i"
          by (auto simp: ret_ok_def list_all_iff)
        with i show ?thesis
          by (auto simp: lane_def w' nth_list_update)
      qed
      show ?thesis
        by (rule ret_ok_lanes [OF assms(2) _ _ L]) (simp_all add: w')
    next
      case ClosedAndDrained
      then have "closed (lane w i)" "buf (lane w i) = []"
        by (simp_all add: chanrecv_ClosedAndDrained lane_def)
      with cs False i assms(2) ClosedAndDrained show ?thesis
        by (auto simp: Consume_step_def ret_ok_def lane_def split: sum.splits)
    next
      case WouldBlock
      with cs False i assms(2) show ?thesis
        by (auto simp: Consume_step_def)
    qed
  qed
next
  case Close_call
  with assms(3) have cl: "Close (bus w) = Inr (bus w')" and w': "w' = w\<lparr>bus := bus w'\<rparr>"
    by (auto split: sum.splits)
  have "returned w = []"
  proof (cases "returned w")
    case Nil
    then show ?thesis .
  next
    case (Cons line ls)
    with assms(2) have "0 \<le> line" "line < int (length (Conveyors (bus w)))" "closed (lane w line)"
      by (simp_all add: ret_ok_def)
    with Close_Inr_open(1) [OF cl, of "nat line"] show ?thesis
      by (simp add: lane_def)
  qed
  moreover have "returned w' = returned w" by (subst w') simp
  ultimately show ?thesis by (simp add: ret_ok_def)
qed

lemma exec_ret_ok:
  assumes "bus_ok (bus w)" and "ret_ok w" and "exec w as = Inr w'"
  shows "ret_ok w'"
  using assms
proof (induction as arbitrary: w)
  case Nil
  then show ?case by simp
next
  case (Cons a as)
  from Cons.prems(3) obtain w1 where s: "step w a = Inr w1" and e: "exec w1 as = Inr w'"
    by (auto split: sum.splits)
  from Cons.IH [OF step_keeps(1) [OF Cons.prems(1) s] step_ret_ok [OF Cons.prems(1,2) s] e]
  show ?case .
qed

lemma Consume_loop_closed:
  "closed c \<Longrightarrow>
     Consume_loop res line c out =
       Completed (c\<lparr>buf := []\<rparr>, out @ map (\<lambda>ev. (res, line, ev)) (buf c))"
proof (induction "buf c" arbitrary: c out)
  case Nil
  then show ?case
    by (subst Consume_loop.simps) (simp add: chanrecv_def)
next
  case (Cons x xs)
  from Cons.hyps(2) [symmetric] Cons.prems
  have "Consume_loop res line c out = Consume_loop res line (c\<lparr>buf := xs\<rparr>) (out @ [(res, line, x)])"
    by (subst Consume_loop.simps) (simp add: chanrecv_def)
  also have "\<dots> = Completed (c\<lparr>buf := xs, buf := []\<rparr>, (out @ [(res, line, x)]) @ map (\<lambda>ev. (res, line, ev)) xs)"
    using Cons.hyps(1) [of "c\<lparr>buf := xs\<rparr>" "out @ [(res, line, x)]"] Cons.prems by simp
  finally show ?case
    using Cons.hyps(2) [symmetric] by simp
qed

lemma Consume_loop_open:
  "\<not> closed c \<Longrightarrow>
     Consume_loop res line c out =
       Suspended (c\<lparr>buf := [], sendq := []\<rparr>, out @ map (\<lambda>ev. (res, line, ev)) (pending c))"
proof (induction "length (pending c)" arbitrary: c out)
  case 0
  then show ?case
    by (subst Consume_loop.simps) (simp add: chanrecv_def pending_def)
next
  case (Suc n)
  from Suc.hyps(2) obtain ev xs where "pending c = ev # xs"
    by (cases "pending c") simp_all
  with chanrecv_open [OF Suc.prems this] obtain c' where r: "chanrecv c = Received ev c'"
    and p: "pending c = ev # pending c'" and c': "\<not> closed c'" "c'\<lparr>buf := [], sendq := []\<rparr> = c\<lparr>buf := [], sendq := []\<rparr>"
    by auto
  have "Consume_loop res line c out = Consume_loop res line c' (out @ [(res, line, ev)])"
    using r by (subst Consume_loop.simps) simp
  also have "\<dots> = Suspended (c'\<lparr>buf := [], sendq := []\<rparr>,
      (out @ [(res, line, ev)]) @ map (\<lambda>ev. (res, line, ev)) (pending c'))"
    using Suc.hyps(1) [of c' "out @ [(res, line, ev)]"] Suc.hyps(2) p c'(1) by simp
  finally show ?case
    by (simp add: p c'(2))
qed


lemma Consume_closed:
  assumes "0 \<le> line" and "line < int (length (Conveyors (bus w)))"
    and "closed (lane w line)" and "0 < wg w"
  shows "Consume line w =
     Completed (w\<lparr>bus := (bus w)\<lparr>Conveyors := (Conveyors (bus w))[nat line := (lane w line)\<lparr>buf := []\<rparr>]\<rparr>,
                  stdout := stdout w @ map (\<lambda>ev. (Resource (bus w), line, ev)) (buf (lane w line)),
                  wg := wg w - 1, returned := line # returned w\<rparr>)"
  using assms Consume_loop_closed [of "lane w line" "Resource (bus w)" line "stdout w"]
  by (simp add: Consume_def wg_Done_def lane_def)

lemma Consume_open:
  assumes "0 \<le> line" and "line < int (length (Conveyors (bus w)))"
    and "\<not> closed (lane w line)"
  shows "Consume line w =
     Suspended (w\<lparr>bus := (bus w)\<lparr>Conveyors := (Conveyors (bus w))[nat line := (lane w line)\<lparr>buf := [], sendq := []\<rparr>]\<rparr>,
                  stdout := stdout w @ map (\<lambda>ev. (Resource (bus w), line, ev)) (pending (lane w line))\<rparr>)"
  using assms Consume_loop_open [of "lane w line" "Resource (bus w)" line "stdout w"]
  by (simp add: Consume_def lane_def)

lemma Close_buffers:
  assumes "Close b = Inr b'"
  shows "map buf (Conveyors b') = map buf (Conveyors b)" and "list_all closed (Conveyors b')"
proof -
  note c = Close_Inr(2) [OF assms] Close_Inr_open(3) [OF assms]
  show "map buf (Conveyors b') = map buf (Conveyors b)"
    using c by (simp add: list_eq_iff_nth_eq)
  show "list_all closed (Conveyors b')"
    using c by (simp add: list_all_length)
qed

lemma returned_drained:
  assumes "bus_ok (bus w)" and "ret_ok w" and "exec w as = Inr w'" and "line \<in> set (returned w')"
  shows "closed (lane w' line)" and "pending (lane w' line) = []"
    and "delivered w' line = line_of w line @ sent as line"
proof -
  note k = exec_keeps [OF assms(1,3)]
  from exec_ret_ok [OF assms(1,2,3)] assms(4)
  have r: "0 \<le> line" "line < int (length (Conveyors (bus w')))" "closed (lane w' line)"
    "buf (lane w' line) = []"
    by (simp_all add: ret_ok_def list_all_iff)
  then have "chan_ok (lane w' line)"
    using bus_ok_nth [OF k(1), of "nat line"] by (simp add: lane_def)
  with r show "closed (lane w' line)" and p: "pending (lane w' line) = []"
    by (auto simp: chan_ok_def pending_def)
  from k(4) [of line] r k(3) have "line_of w' line = line_of w line @ sent as line"
    by simp
  with p show "delivered w' line = line_of w line @ sent as line"
    by (simp add: line_of_def)
qed

section \<open>Construction, read backwards\<close>

lemma makechan_Inr: "makechan lim buffer = Inr c \<Longrightarrow> c = fresh_chan buffer"
  by (simp add: makechan_def fresh_chan_def split: if_splits)

lemma NewMainBus_loop_Inr:
  "NewMainBus_loop lim buffer lines i b = Inr b' \<Longrightarrow>
     Resource b' = Resource b \<and>
     (\<exists>k. Conveyors b' = Conveyors b @ replicate k (fresh_chan buffer))"
proof (induction lim buffer lines i b rule: NewMainBus_loop.induct)
  case (1 lim buffer lines i b)
  show ?case
  proof (cases "i <s lines")
    case False
    with "1.prems" show ?thesis
      by (simp add: NewMainBus_loop_done)
  next
    case True
    with "1.prems" obtain c where mk: "makechan lim buffer = Inr c"
      and r: "NewMainBus_loop lim buffer lines (i + 1) (b\<lparr>Conveyors := Conveyors b @ [c]\<rparr>) = Inr b'"
      by (subst (asm) NewMainBus_loop.simps) (auto split: sum.splits)
    from "1.IH" [OF True mk r] obtain k where
      "Resource b' = Resource b" "Conveyors b' = (Conveyors b @ [c]) @ replicate k (fresh_chan buffer)"
      by auto
    with makechan_Inr [OF mk] have "Resource b' = Resource b"
      "Conveyors b' = Conveyors b @ replicate (Suc k) (fresh_chan buffer)"
      by simp_all
    then show ?thesis by blast
  qed
qed

lemma NewMainBus_Inr:
  assumes "NewMainBus lim resource n buffer = Inr b"
  shows "Resource b = resource" and "\<exists>k. Conveyors b = replicate k (fresh_chan buffer)"
  using NewMainBus_loop_Inr [of lim buffer _ 0 "\<lparr>Resource = resource, Conveyors = []\<rparr>" b] assms
  by (auto simp: NewMainBus_def Let_def split: if_splits)

lemma NewMainBus_nth:
  assumes "NewMainBus lim resource n buffer = Inr b" and "i < length (Conveyors b)"
  shows "Conveyors b ! i = fresh_chan buffer"
  using NewMainBus_Inr(2) [OF assms(1)] assms(2) by auto


section \<open>Producing\<close>

lemma Produce_in_range:
  assumes "0 \<le> idx" and "idx < int (length (Conveyors b))"
  shows "Produce idx b ev =
     (case chansend (Conveyors b ! nat idx) ev of
        Completed c \<Rightarrow> Completed (b\<lparr>Conveyors := (Conveyors b)[nat idx := c]\<rparr>)
      | Suspended c \<Rightarrow> Suspended (b\<lparr>Conveyors := (Conveyors b)[nat idx := c]\<rparr>)
      | Panicked p \<Rightarrow> Panicked p)"
  using assms by (auto simp: Produce_def)

lemma Intn_set: "set (Intn n) = {0..<n}"
  by (auto simp: Intn_def)

lemma Intn_distinct: "distinct (Intn n)"
  by (simp add: Intn_def)

lemma Intn_length: "0 \<le> n \<Longrightarrow> int (length (Intn n)) = n"
  by (simp add: Intn_def)

lemma Intn_hits_once:
  assumes "i < nat n"
  shows "length (filter (\<lambda>idx. nat idx = i) (Intn n)) = 1"
proof -
  have "{idx. nat idx = i} \<inter> set (Intn n) = {int i}"
    using assms by (auto simp: Intn_set)
  then show ?thesis
    by (simp add: distinct_length_filter Intn_distinct)
qed

lemma Produce_keeps_other_lanes:
  assumes "Produce idx b ev = Completed b' \<or> Produce idx b ev = Suspended b'"
  shows "Resource b' = Resource b" and "length (Conveyors b') = length (Conveyors b)"
    and "\<And>j. int j \<noteq> idx \<Longrightarrow> Conveyors b' ! j = Conveyors b ! j"
proof -
  have "Resource b' = Resource b \<and> length (Conveyors b') = length (Conveyors b) \<and>
        (\<forall>j. int j \<noteq> idx \<longrightarrow> Conveyors b' ! j = Conveyors b ! j)"
  proof (cases "Conveyors b = []")
    case True
    with assms show ?thesis by (simp add: Produce_no_lanes)
  next
    case False
    from assms False obtain c' where "0 \<le> idx"
      and "b' = b\<lparr>Conveyors := (Conveyors b)[nat idx := c']\<rparr>"
      by (rule Produce_returns)
    then show ?thesis by auto
  qed
  then show "Resource b' = Resource b" and "length (Conveyors b') = length (Conveyors b)"
    and "\<And>j. int j \<noteq> idx \<Longrightarrow> Conveyors b' ! j = Conveyors b ! j"
    by simp_all
qed

text \<open>
  C10. A call of \<open>Produce\<close> that returns or parks leaves the bus's resource name and the
  number of its conveyors as they were, and every conveyor other than the one at the
  drawn index is exactly as before. (A call that panics ends the process.)
\<close>

theorem Produce_frame:
  assumes "Produce idx b ev = Completed b' \<or> Produce idx b ev = Suspended b'"
  shows "Resource b' = Resource b \<and> length (Conveyors b') = length (Conveyors b) \<and>
         (\<forall>j < length (Conveyors b). int j \<noteq> idx \<longrightarrow> Conveyors b' ! j = Conveyors b ! j)"
  using Produce_keeps_other_lanes [OF assms] by simp

theorem Produce_frame_witness:
  "Produce 0 demo_bus (iron_event 0)
     = Completed \<lparr>Resource = ''iron'', Conveyors = [(fresh_chan 1)\<lparr>buf := [iron_event 0]\<rparr>, fresh_chan 1]\<rparr> \<and>
   1 < length (Conveyors demo_bus) \<and> int 1 \<noteq> 0 \<and>
   Resource \<lparr>Resource = ''iron'', Conveyors = [(fresh_chan 1)\<lparr>buf := [iron_event 0]\<rparr>, fresh_chan 1 :: (string, nat) Conveyor]\<rparr>
     = Resource demo_bus \<and>
   Conveyors \<lparr>Resource = ''iron'', Conveyors = [(fresh_chan 1)\<lparr>buf := [iron_event 0]\<rparr>, fresh_chan 1]\<rparr> ! 1
     = Conveyors demo_bus ! 1"
proof -
  let ?b = "\<lparr>Resource = ''iron'', Conveyors = [(fresh_chan 1)\<lparr>buf := [iron_event 0]\<rparr>, fresh_chan 1]\<rparr> :: (string, nat) MainBus"
  have p: "Produce 0 demo_bus (iron_event 0) = Completed ?b" by code_simp
  then have h: "Produce 0 demo_bus (iron_event 0) = Completed ?b \<or>
                Produce 0 demo_bus (iron_event 0) = Suspended ?b" ..
  have j: "1 < length (Conveyors demo_bus)" "int 1 \<noteq> 0" by code_simp+
  note t = Produce_frame [OF h]
  from t j have "Resource ?b = Resource demo_bus" "Conveyors ?b ! 1 = Conveyors demo_bus ! 1"
    by blast+
  with p j show ?thesis
    by (intro conjI)
qed

text \<open>
  C6. On a bus with no conveyor every call of \<open>Produce\<close> returns at once, whatever
  index and event it is given, and leaves the bus as it was; and any number of such
  calls, run one after the other, raise no panic and leave the whole world unchanged: no
  conveyor is touched and nothing is printed by any consumer.
\<close>

theorem Produce_zero_lanes:
  assumes "Conveyors (bus w) = []"
  shows "Produce idx (bus w) ev = Completed (bus w) \<and>
         exec w (map (\<lambda>(idx, ev). Produce_call idx ev) cs) = Inr w"
proof
  show "Produce idx (bus w) ev = Completed (bus w)"
    using assms by (rule Produce_no_lanes)
  show "exec w (map (\<lambda>(idx, ev). Produce_call idx ev) cs) = Inr w"
    using assms by (induction cs) (auto simp: Produce_no_lanes)
qed

theorem Produce_zero_lanes_witness:
  "Conveyors (bus (start \<lparr>Resource = ''iron'', Conveyors = [] :: (string, nat) Conveyor list\<rparr>)) = [] \<and>
   Produce 7 (bus (start \<lparr>Resource = ''iron'', Conveyors = []\<rparr>)) (iron_event 0)
     = Completed (bus (start \<lparr>Resource = ''iron'', Conveyors = []\<rparr>)) \<and>
   exec (start \<lparr>Resource = ''iron'', Conveyors = []\<rparr>)
     (map (\<lambda>(idx, ev). Produce_call idx ev) [(0, iron_event 0), (5, iron_event 1)])
     = Inr (start \<lparr>Resource = ''iron'', Conveyors = []\<rparr>)"
proof -
  let ?w = "start \<lparr>Resource = ''iron'', Conveyors = [] :: (string, nat) Conveyor list\<rparr>"
  have h: "Conveyors (bus ?w) = []" by code_simp
  from h Produce_zero_lanes [OF h, of 7 "iron_event 0" "[(0, iron_event 0), (5, iron_event 1)]"]
  show ?thesis by (intro conjI) blast+
qed

text \<open>
  C5 (as amended). On a bus with at least one conveyor, after \<open>Close\<close> has closed its
  conveyors, a call of \<open>Produce\<close> with any index that \<^verbatim>\<open>rand.Intn\<close> can return ends in
  the panic \<^verbatim>\<open>send on closed channel\<close>: the event is not dropped silently. The panic
  value is the runtime's; it names the operation that failed and nothing of the bus.
\<close>

theorem Produce_after_Close:
  assumes "Close b = Inr b'" and "idx \<in> set (Intn (int (length (Conveyors b'))))"
  shows "Produce idx b' ev = Panicked SendOnClosedChannel"
proof -
  from assms(2) have i: "0 \<le> idx" "idx < int (length (Conveyors b'))"
    by (simp_all add: Intn_set)
  then have "nat idx < length (Conveyors b)"
    using Close_Inr(2) [OF assms(1)] by simp
  from Close_Inr_open(3) [OF assms(1) this] have "closed (Conveyors b' ! nat idx)"
    by simp
  then show ?thesis
    using i by (simp add: Produce_in_range chansend_def)
qed

theorem Produce_after_Close_witness:
  "Close demo_bus = Inr \<lparr>Resource = ''iron'', Conveyors = [closed_chan [], closed_chan []]\<rparr> \<and>
   1 \<in> set (Intn (int (length (Conveyors \<lparr>Resource = ''iron'', Conveyors = [closed_chan [], closed_chan [] :: (string, nat) Conveyor]\<rparr>)))) \<and>
   Produce 1 \<lparr>Resource = ''iron'', Conveyors = [closed_chan [], closed_chan []]\<rparr> (iron_event 0)
     = Panicked SendOnClosedChannel"
proof -
  let ?b = "\<lparr>Resource = ''iron'', Conveyors = [closed_chan [], closed_chan []]\<rparr> :: (string, nat) MainBus"
  have cl: "Close demo_bus = Inr ?b" by code_simp
  have i: "1 \<in> set (Intn (int (length (Conveyors ?b))))" by code_simp
  from cl i Produce_after_Close [OF cl i, of "iron_event 0"] show ?thesis
    by (intro conjI)
qed

text \<open>
  The claim as stated fails in two ways. On a bus without conveyors \<open>Close\<close> succeeds and
  a later \<open>Produce\<close> returns normally, dropping the event. And the closed buses named
  \<^verbatim>\<open>iron\<close> and \<^verbatim>\<open>copper\<close> end \<open>Produce\<close> with one and the same panic value, so the
  diagnostic does not tell which bus it was.
\<close>

theorem Produce_after_Close_counterexample:
  "Close \<lparr>Resource = ''iron'', Conveyors = []\<rparr>
     = (Inr \<lparr>Resource = ''iron'', Conveyors = []\<rparr> :: panic + (string, nat) MainBus) \<and>
   Produce 0 \<lparr>Resource = ''iron'', Conveyors = []\<rparr> (iron_event 0)
     = Completed \<lparr>Resource = ''iron'', Conveyors = []\<rparr> \<and>
   Close demo_bus = Inr \<lparr>Resource = ''iron'', Conveyors = [closed_chan [], closed_chan []]\<rparr> \<and>
   Close copper_bus = Inr \<lparr>Resource = ''copper'', Conveyors = [closed_chan [], closed_chan []]\<rparr> \<and>
   Produce 0 \<lparr>Resource = ''iron'', Conveyors = [closed_chan [], closed_chan []]\<rparr> (iron_event 0)
     = Panicked SendOnClosedChannel \<and>
   Produce 0 \<lparr>Resource = ''copper'', Conveyors = [closed_chan [], closed_chan []]\<rparr> (iron_event 0)
     = Panicked SendOnClosedChannel"
  by code_simp

lemma rand_Intn_Inr:
  assumes "0 < n"
  shows "rand_Intn v n = Inr (int v mod n)" and "0 \<le> int v mod n" and "int v mod n < n"
    and "int v mod n \<in> set (Intn n)"
  using assms by (simp_all add: rand_Intn_def Intn_set)

lemma Intn_is_range_of_rand_Intn: "set (Intn n) = {idx. \<exists>v. rand_Intn v n = Inr idx}"
proof (cases "0 < n")
  case False
  then show ?thesis by (auto simp: Intn_def rand_Intn_def)
next
  case True
  show ?thesis
  proof (intro set_eqI iffI)
    fix idx assume "idx \<in> set (Intn n)"
    then have "0 \<le> idx" "idx < n" by (simp_all add: Intn_set)
    then have "rand_Intn (nat idx) n = Inr idx"
      using True by (simp add: rand_Intn_def)
    then show "idx \<in> {idx. \<exists>v. rand_Intn v n = Inr idx}" by blast
  next
    fix idx assume "idx \<in> {idx. \<exists>v. rand_Intn v n = Inr idx}"
    then show "idx \<in> set (Intn n)"
      using True by (auto simp: rand_Intn_def Intn_set)
  qed
qed

lemma Produce_rand_is_Produce:
  "Produce_rand v b ev = Produce (int v mod int (length (Conveyors b))) b ev"
  by (simp add: Produce_rand_def Produce_def rand_Intn_def)

lemma rand_Intn_hits:
  assumes "i < n"
  shows "rand_Intn v (int n) = Inr (int i) \<longleftrightarrow> v mod n = i"
proof -
  have "int v mod int n = int (v mod n)" by (simp add: zmod_int)
  with assms show ?thesis
    by (auto simp: rand_Intn_def)
qed

lemma block_hits_once:
  assumes "i < n"
  shows "length (filter (\<lambda>v. v mod n = i) [k * n..<k * n + n]) = 1"
proof -
  have "[k * n..<k * n + n] = map (\<lambda>r. r + k * n) [0..<n]"
    by (simp add: map_add_upt add.commute)
  then have "filter (\<lambda>v. v mod n = i) [k * n..<k * n + n]
      = map (\<lambda>r. r + k * n) (filter (\<lambda>r. (r + k * n) mod n = i) [0..<n])"
    by (simp add: filter_map comp_def)
  also have "filter (\<lambda>r. (r + k * n) mod n = i) [0..<n] = filter (\<lambda>r. r = i) [0..<n]"
    by (intro filter_cong) auto
  finally have "length (filter (\<lambda>v. v mod n = i) [k * n..<k * n + n])
      = length (filter (\<lambda>r. r = i) [0..<n])"
    by simp
  also have "\<dots> = card ({r. r = i} \<inter> set [0..<n])"
    by (rule distinct_length_filter) simp
  also have "{r. r = i} \<inter> set [0..<n] = {i}"
    using assms by auto
  finally show ?thesis by simp
qed

lemma range_hits_evenly:
  assumes "i < n"
  shows "length (filter (\<lambda>v. v mod n = i) [0..<k * n]) = k"
proof (induction k)
  case 0
  then show ?case by simp
next
  case (Suc k)
  have "Suc k * n = k * n + n" by simp
  then have "[0..<Suc k * n] = [0..<k * n] @ [k * n..<k * n + n]"
    using upt_add_eq_append [of 0 "k * n" n] by (simp only: le0)
  then have "length (filter (\<lambda>v. v mod n = i) [0..<Suc k * n])
      = length (filter (\<lambda>v. v mod n = i) [0..<k * n])
        + length (filter (\<lambda>v. v mod n = i) [k * n..<k * n + n])"
    by (simp only: filter_append length_append)
  with Suc block_hits_once [OF assms, of k] show ?case
    by (simp only:)
qed

lemma product_hits:
  "length (filter (\<lambda>(x, y). P x \<and> Q y) (List.product xs ys))
     = length (filter P xs) * length (filter Q ys)"
proof (induction xs)
  case Nil
  then show ?case by simp
next
  case (Cons x xs)
  have "filter (\<lambda>(a, y). P a \<and> Q y) (map (Pair x) ys)
      = (if P x then map (Pair x) (filter Q ys) else [])"
    by (induction ys) auto
  with Cons show ?case
    by simp
qed

text \<open>
  C8. For a bus with \<open>n \<ge> 1\<close> conveyors and every value \<open>v\<close> of the generator's source:
  the draw \<^verbatim>\<open>rand.Intn(len(bus.Conveyors))\<close> of \<open>Produce\<close> returns an index of \<open>[0, n)\<close>,
  \<open>Produce\<close> is the send on the conveyor at that index (what \<open>Produce\<close> with the draw's
  outcome given does at that index), and it never panics on an index out
  of range nor in \<^verbatim>\<open>rand.Intn\<close>; a call that returns or parks leaves the number of
  conveyors, hence the range of every later draw, as it was. Over the source's range
  \<open>[0, k * n)\<close> every conveyor is drawn by exactly \<open>k\<close> of the \<open>k * n\<close> equally likely values,
  that is with probability \<open>1 / n\<close>; and over the pairs of values of two calls every pair
  of conveyors is drawn by exactly \<open>k * k\<close> of the \<open>(k * n)\<^sup>2\<close> pairs, that is with
  probability \<open>1 / n\<^sup>2\<close>, the product: the calls choose independently.
\<close>

theorem Produce_lane_selection:
  assumes "Conveyors b \<noteq> []"
  shows "(\<exists>idx. rand_Intn v (int (length (Conveyors b))) = Inr idx \<and>
            idx \<in> set (Intn (int (length (Conveyors b)))) \<and>
            0 \<le> idx \<and> idx < int (length (Conveyors b)) \<and>
            Produce_rand v b ev = Produce idx b ev \<and>
            Produce_rand v b ev =
              (case chansend (Conveyors b ! nat idx) ev of
                 Completed c \<Rightarrow> Completed (b\<lparr>Conveyors := (Conveyors b)[nat idx := c]\<rparr>)
               | Suspended c \<Rightarrow> Suspended (b\<lparr>Conveyors := (Conveyors b)[nat idx := c]\<rparr>)
               | Panicked p \<Rightarrow> Panicked p)) \<and>
         (\<forall>i m. Produce_rand v b ev \<noteq> Panicked (IndexOutOfRange i m)) \<and>
         Produce_rand v b ev \<noteq> Panicked InvalidArgumentToIntn \<and>
         (\<forall>b'. Produce_rand v b ev = Completed b' \<or> Produce_rand v b ev = Suspended b' \<longrightarrow>
               length (Conveyors b') = length (Conveyors b)) \<and>
         (\<forall>i < length (Conveyors b).
            length (filter (\<lambda>v. rand_Intn v (int (length (Conveyors b))) = Inr (int i))
                      [0..<k * length (Conveyors b)]) = k) \<and>
         (\<forall>i < length (Conveyors b). \<forall>j < length (Conveyors b).
            length (filter (\<lambda>(v1, v2). rand_Intn v1 (int (length (Conveyors b))) = Inr (int i) \<and>
                                     rand_Intn v2 (int (length (Conveyors b))) = Inr (int j))
                      (List.product [0..<k * length (Conveyors b)] [0..<k * length (Conveyors b)]))
              = k * k)"
proof -
  let ?n = "length (Conveyors b)"
  let ?idx = "int v mod int ?n"
  have pos: "0 < int ?n" using assms by simp
  note r = rand_Intn_Inr [OF pos, of v]
  have p: "Produce_rand v b ev =
              (case chansend (Conveyors b ! nat ?idx) ev of
                 Completed c \<Rightarrow> Completed (b\<lparr>Conveyors := (Conveyors b)[nat ?idx := c]\<rparr>)
               | Suspended c \<Rightarrow> Suspended (b\<lparr>Conveyors := (Conveyors b)[nat ?idx := c]\<rparr>)
               | Panicked p \<Rightarrow> Panicked p)"
    unfolding Produce_rand_is_Produce using r(2,3) by (rule Produce_in_range)
  have A: "\<exists>idx. rand_Intn v (int ?n) = Inr idx \<and> idx \<in> set (Intn (int ?n)) \<and>
            0 \<le> idx \<and> idx < int ?n \<and>
            Produce_rand v b ev = Produce idx b ev \<and>
            Produce_rand v b ev =
              (case chansend (Conveyors b ! nat idx) ev of
                 Completed c \<Rightarrow> Completed (b\<lparr>Conveyors := (Conveyors b)[nat idx := c]\<rparr>)
               | Suspended c \<Rightarrow> Suspended (b\<lparr>Conveyors := (Conveyors b)[nat idx := c]\<rparr>)
               | Panicked p \<Rightarrow> Panicked p)"
    using r p Produce_rand_is_Produce [of v b ev] by blast
  have B: "\<forall>i m. Produce_rand v b ev \<noteq> Panicked (IndexOutOfRange i m)"
    unfolding p by (simp add: chansend_def)
  have C: "Produce_rand v b ev \<noteq> Panicked InvalidArgumentToIntn"
    unfolding p by (simp add: chansend_def)
  have D: "\<forall>b'. Produce_rand v b ev = Completed b' \<or> Produce_rand v b ev = Suspended b' \<longrightarrow>
               length (Conveyors b') = ?n"
    unfolding Produce_rand_is_Produce using Produce_keeps_other_lanes(2) by blast
  have E: "length (filter (\<lambda>v. rand_Intn v (int ?n) = Inr (int i)) [0..<k * ?n]) = k"
    if "i < ?n" for i
    using range_hits_evenly [OF that, of k] by (simp add: rand_Intn_hits [OF that])
  have F: "length (filter (\<lambda>(v1, v2). rand_Intn v1 (int ?n) = Inr (int i) \<and>
                                     rand_Intn v2 (int ?n) = Inr (int j))
                      (List.product [0..<k * ?n] [0..<k * ?n])) = k * k"
    if "i < ?n" "j < ?n" for i j
    unfolding product_hits using E [OF that(1)] E [OF that(2)] by simp
  from A B C D E F show ?thesis by blast
qed

theorem Produce_lane_selection_witness:
  "Conveyors demo_bus \<noteq> [] \<and>
   rand_Intn 5 (int (length (Conveyors demo_bus))) = Inr 1 \<and>
   Produce_rand 5 demo_bus (iron_event 0)
     = Completed \<lparr>Resource = ''iron'', Conveyors = [fresh_chan 1, (fresh_chan 1)\<lparr>buf := [iron_event 0]\<rparr>]\<rparr> \<and>
   Produce_rand 5 demo_bus (iron_event 0) \<noteq> Panicked (IndexOutOfRange 2 2) \<and>
   length (Conveyors \<lparr>Resource = ''iron'', Conveyors = [fresh_chan 1, (fresh_chan 1)\<lparr>buf := [iron_event 0]\<rparr>]\<rparr>)
     = length (Conveyors demo_bus) \<and>
   1 < length (Conveyors demo_bus) \<and>
   length (filter (\<lambda>v. rand_Intn v (int (length (Conveyors demo_bus))) = Inr (int 1))
             [0..<3 * length (Conveyors demo_bus)]) = 3 \<and>
   length (filter (\<lambda>(v1, v2). rand_Intn v1 (int (length (Conveyors demo_bus))) = Inr (int 1) \<and>
                            rand_Intn v2 (int (length (Conveyors demo_bus))) = Inr (int 0))
             (List.product [0..<3 * length (Conveyors demo_bus)] [0..<3 * length (Conveyors demo_bus)]))
     = 3 * 3"
proof -
  let ?b = "\<lparr>Resource = ''iron'', Conveyors = [fresh_chan 1, (fresh_chan 1)\<lparr>buf := [iron_event 0]\<rparr>]\<rparr> :: (string, nat) MainBus"
  have h: "Conveyors demo_bus \<noteq> []" by code_simp
  have r: "rand_Intn 5 (int (length (Conveyors demo_bus))) = Inr 1" by code_simp
  have p: "Produce_rand 5 demo_bus (iron_event 0) = Completed ?b" by code_simp
  have j: "1 < length (Conveyors demo_bus)" "0 < length (Conveyors demo_bus)" by code_simp+
  note t = Produce_lane_selection [OF h, of 5 "iron_event 0" 3]
  from t have "Produce_rand 5 demo_bus (iron_event 0) \<noteq> Panicked (IndexOutOfRange 2 2)"
    by blast
  moreover from t p have "length (Conveyors ?b) = length (Conveyors demo_bus)"
    by blast
  moreover from t j(1) have "length (filter (\<lambda>v. rand_Intn v (int (length (Conveyors demo_bus))) = Inr (int 1))
             [0..<3 * length (Conveyors demo_bus)]) = 3"
    by blast
  moreover from t j have "length (filter (\<lambda>(v1, v2). rand_Intn v1 (int (length (Conveyors demo_bus))) = Inr (int 1) \<and>
                            rand_Intn v2 (int (length (Conveyors demo_bus))) = Inr (int 0))
             (List.product [0..<3 * length (Conveyors demo_bus)] [0..<3 * length (Conveyors demo_bus)]))
     = 3 * 3"
    by blast
  ultimately show ?thesis
    using h r p j(1) by (intro conjI)
qed

section \<open>Back-pressure\<close>

lemma Produce_room:
  assumes "0 \<le> idx" and "idx < int (length (Conveyors b))"
    and "\<not> closed (Conveyors b ! nat idx)"
    and "length (buf (Conveyors b ! nat idx)) < dataqsiz (Conveyors b ! nat idx)"
  shows "Produce idx b ev =
     Completed (b\<lparr>Conveyors := (Conveyors b)[nat idx :=
        (Conveyors b ! nat idx)\<lparr>buf := buf (Conveyors b ! nat idx) @ [ev]\<rparr>]\<rparr>)"
  using assms by (simp add: Produce_in_range chansend_def)

lemma Produce_full:
  assumes "0 \<le> idx" and "idx < int (length (Conveyors b))"
    and "\<not> closed (Conveyors b ! nat idx)"
    and "length (buf (Conveyors b ! nat idx)) = dataqsiz (Conveyors b ! nat idx)"
  shows "Produce idx b ev =
     Suspended (b\<lparr>Conveyors := (Conveyors b)[nat idx :=
        (Conveyors b ! nat idx)\<lparr>sendq := sendq (Conveyors b ! nat idx) @ [ev]\<rparr>]\<rparr>)"
  using assms by (simp add: Produce_in_range chansend_def)

lemma exec_fill:
  assumes "0 \<le> idx" and "idx < int (length (Conveyors (bus w)))"
    and "\<not> closed (lane w idx)"
    and "length (buf (lane w idx)) + length evs \<le> dataqsiz (lane w idx)"
  shows "exec w (map (Produce_call idx) evs) =
     Inr (w\<lparr>bus := (bus w)\<lparr>Conveyors := (Conveyors (bus w))[nat idx :=
        (lane w idx)\<lparr>buf := buf (lane w idx) @ evs\<rparr>]\<rparr>\<rparr>)"
  using assms
proof (induction evs arbitrary: w)
  case Nil
  then show ?case by (simp add: lane_def)
next
  case (Cons ev evs)
  let ?w1 = "w\<lparr>bus := (bus w)\<lparr>Conveyors := (Conveyors (bus w))[nat idx :=
        (lane w idx)\<lparr>buf := buf (lane w idx) @ [ev]\<rparr>]\<rparr>\<rparr>"
  have s: "step w (Produce_call idx ev) = Inr ?w1"
    using Cons.prems Produce_room [of idx "bus w" ev] by (simp add: lane_def)
  have l: "lane ?w1 idx = (lane w idx)\<lparr>buf := buf (lane w idx) @ [ev]\<rparr>"
    using Cons.prems by (simp add: lane_def)
  have "exec ?w1 (map (Produce_call idx) evs) =
     Inr (?w1\<lparr>bus := (bus ?w1)\<lparr>Conveyors := (Conveyors (bus ?w1))[nat idx :=
        (lane ?w1 idx)\<lparr>buf := buf (lane ?w1 idx) @ evs\<rparr>]\<rparr>\<rparr>)"
    using Cons.prems by (intro Cons.IH) (simp_all add: l)
  then show ?case
    using s by (simp add: l)
qed

lemma Close_Inr_sendq:
  assumes "Close b = Inr b'" and "0 \<le> line" and "line < int (length (Conveyors b))"
  shows "sendq (Conveyors b ! nat line) = []"
  using Close_Inr_open(2) [OF assms(1), of "nat line"] assms(2,3) by simp

lemma step_release:
  assumes "bus_ok (bus w)" and "0 \<le> line" and "line < int (length (Conveyors (bus w)))"
    and "sendq (lane w line) = s # ss" and "step w a = Inr w'"
  shows "(\<exists>ss'. sendq (lane w' line) = s # ss') \<or>
         (a = Consume_iter line \<and> sendq (lane w' line) = ss \<and>
          stdout w' = stdout w @ [(Resource (bus w), line, hd (pending (lane w line)))])"
proof (cases a)
  case (Produce_call idx ev)
  have ne: "Conveyors (bus w) \<noteq> []" using assms(2,3) by auto
  from assms(5) Produce_call obtain b' where
    b': "Produce idx (bus w) ev = Completed b' \<or> Produce idx (bus w) ev = Suspended b'"
    and w': "w' = w\<lparr>bus := b'\<rparr>"
    by (auto split: outcome.splits)
  from b' ne obtain c' where
    idx: "0 \<le> idx" "idx < int (length (Conveyors (bus w)))"
    and snd: "chansend (Conveyors (bus w) ! nat idx) ev = Completed c' \<or>
              chansend (Conveyors (bus w) ! nat idx) ev = Suspended c'"
    and b'_eq: "b' = (bus w)\<lparr>Conveyors := (Conveyors (bus w))[nat idx := c']\<rparr>"
    by (rule Produce_returns)
  have "\<exists>ss'. sendq (lane w' line) = s # ss'"
  proof (cases "idx = line")
    case True
    with snd assms(4) have "sendq c' = s # ss \<or> sendq c' = s # ss @ [ev]"
      by (auto simp: chansend_Completed chansend_Suspended lane_def)
    with True idx show ?thesis
      by (auto simp: lane_def w' b'_eq)
  next
    case False
    with assms(2,4) idx show ?thesis
      by (auto simp: lane_def w' b'_eq nth_list_update)
  qed
  then show ?thesis ..
next
  case (Consume_iter i)
  with assms(5) have cs: "Consume_step i w = Inr w'" by simp
  have op: "\<not> closed (lane w line)"
    using bus_ok_nth [OF assms(1), of "nat line"] assms(2,3,4)
    by (auto simp: chan_ok_def lane_def)
  show ?thesis
  proof (cases "i = line \<and> line \<notin> set (returned w)")
    case True
    from chanrecv_open [OF op, of s "tl (pending (lane w line))"] op assms(4)
    obtain c' where r: "chanrecv (lane w line) = Received (hd (pending (lane w line))) c'"
      and c': "sendq c' = ss"
      by (cases "buf (lane w line)") (auto simp: chanrecv_def pending_def)
    with cs True assms(2,3) have "a = Consume_iter line \<and> sendq (lane w' line) = ss \<and>
          stdout w' = stdout w @ [(Resource (bus w), line, hd (pending (lane w line)))]"
      using Consume_iter by (auto simp: Consume_step_def lane_def)
    then show ?thesis ..
  next
    case False
    have "lane w' line = lane w line"
    proof (cases "i = line")
      case True
      with False cs assms(2,3) show ?thesis
        by (auto simp: Consume_step_def)
    next
      case False
      with cs assms(2,3) show ?thesis
        by (auto simp: Consume_step_def lane_def nth_list_update
            split: if_splits recv.splits sum.splits)
    qed
    with assms(4) show ?thesis by simp
  qed
next
  case Close_call
  with assms(5) have "Close (bus w) = Inr (bus w')"
    by (auto split: sum.splits)
  from Close_Inr_sendq [OF this assms(2,3)] assms(4) show ?thesis
    by (simp add: lane_def)
qed

lemma step_stays_parked:
  assumes "bus_ok (bus w)" and "0 \<le> line" and "line < int (length (Conveyors (bus w)))"
    and "sendq (lane w line) \<noteq> []" and "step w a = Inr w'" and "a \<noteq> Consume_iter line"
  shows "lane w' line = (lane w line)\<lparr>sendq := sendq (lane w line) @ sent [a] line\<rparr>"
    and "delivered w' line = delivered w line"
proof -
  have full: "\<not> closed (lane w line)" "length (buf (lane w line)) = dataqsiz (lane w line)"
    using bus_ok_nth [OF assms(1), of "nat line"] assms(2,3,4)
    by (auto simp: chan_ok_def lane_def)
  have "lane w' line = (lane w line)\<lparr>sendq := sendq (lane w line) @ sent [a] line\<rparr> \<and>
        delivered w' line = delivered w line"
  proof (cases a)
    case (Produce_call idx ev)
    have ne: "Conveyors (bus w) \<noteq> []" using assms(2,3) by auto
    from assms(5) Produce_call obtain b' where
      b': "Produce idx (bus w) ev = Completed b' \<or> Produce idx (bus w) ev = Suspended b'"
      and w': "w' = w\<lparr>bus := b'\<rparr>"
      by (auto split: outcome.splits)
    from b' ne obtain c' where
      idx: "0 \<le> idx" "idx < int (length (Conveyors (bus w)))"
      and snd: "chansend (Conveyors (bus w) ! nat idx) ev = Completed c' \<or>
                chansend (Conveyors (bus w) ! nat idx) ev = Suspended c'"
      and b'_eq: "b' = (bus w)\<lparr>Conveyors := (Conveyors (bus w))[nat idx := c']\<rparr>"
      by (rule Produce_returns)
    show ?thesis
    proof (cases "idx = line")
      case True
      with snd full have "c' = (lane w line)\<lparr>sendq := sendq (lane w line) @ [ev]\<rparr>"
        by (auto simp: chansend_Completed chansend_Suspended lane_def)
      with True idx Produce_call show ?thesis
        by (simp add: lane_def w' b'_eq delivered_def)
    next
      case False
      with assms(2) idx Produce_call show ?thesis
        by (auto simp: lane_def w' b'_eq nth_list_update delivered_def)
    qed
  next
    case (Consume_iter i)
    with assms(6) have ne: "i \<noteq> line" by simp
    from Consume_iter assms(5) have cs: "Consume_step i w = Inr w'" by simp
    from cs ne assms(2,3) have "lane w' line = lane w line"
      by (auto simp: Consume_step_def lane_def nth_list_update
          split: if_splits recv.splits sum.splits)
    moreover from cs ne have "delivered w' line = delivered w line"
      by (auto simp: Consume_step_def delivered_def split: if_splits recv.splits sum.splits)
    ultimately show ?thesis
      using Consume_iter by simp
  next
    case Close_call
    with assms(5) have "Close (bus w) = Inr (bus w')"
      by (auto split: sum.splits)
    from Close_Inr_sendq [OF this assms(2,3)] assms(4) show ?thesis
      by (simp add: lane_def)
  qed
  then show "lane w' line = (lane w line)\<lparr>sendq := sendq (lane w line) @ sent [a] line\<rparr>"
    and "delivered w' line = delivered w line"
    by simp_all
qed

lemma exec_stays_parked:
  assumes "bus_ok (bus w)" and "0 \<le> line" and "line < int (length (Conveyors (bus w)))"
    and "sendq (lane w line) \<noteq> []" and "exec w as = Inr w'" and "Consume_iter line \<notin> set as"
  shows "lane w' line = (lane w line)\<lparr>sendq := sendq (lane w line) @ sent as line\<rparr>"
    and "delivered w' line = delivered w line"
proof -
  have "lane w' line = (lane w line)\<lparr>sendq := sendq (lane w line) @ sent as line\<rparr> \<and>
        delivered w' line = delivered w line"
    using assms
  proof (induction as arbitrary: w)
    case Nil
    then show ?case by simp
  next
    case (Cons a as)
    from Cons.prems(5) obtain w1 where s: "step w a = Inr w1" and e: "exec w1 as = Inr w'"
      by (auto split: sum.splits)
    from Cons.prems(6) have na: "a \<noteq> Consume_iter line" "Consume_iter line \<notin> set as"
      by auto
    note k = step_keeps(1,3) [OF Cons.prems(1) s]
    note p = step_stays_parked [OF Cons.prems(1,2,3,4) s na(1)]
    have l1: "line < int (length (Conveyors (bus w1)))" using k(2) Cons.prems(3) by simp
    have q1: "sendq (lane w1 line) \<noteq> []" using p(1) Cons.prems(4) by simp
    from Cons.IH [OF k(1) Cons.prems(2) l1 q1 e na(2)] p
    show ?case
      using sent_append [of "[a]" as line] by (simp del: sent_append)
  qed
  then show "lane w' line = (lane w line)\<lparr>sendq := sendq (lane w line) @ sent as line\<rparr>"
    and "delivered w' line = delivered w line"
    by simp_all
qed

lemma step_consumer_releases:
  assumes "0 \<le> line" and "line < int (length (Conveyors (bus w)))"
    and "line \<notin> set (returned w)" and "\<not> closed (lane w line)"
    and "sendq (lane w line) = s # ss"
  shows "step w (Consume_iter line) =
     Inr (w\<lparr>bus := (bus w)\<lparr>Conveyors := (Conveyors (bus w))[nat line :=
               (lane w line)\<lparr>buf := tl (buf (lane w line) @ [s]), sendq := ss\<rparr>]\<rparr>,
            stdout := stdout w @ [(Resource (bus w), line, hd (buf (lane w line) @ [s]))]\<rparr>)"
proof (cases "buf (lane w line)")
  case Nil
  then have eq: "(lane w line)\<lparr>sendq := ss\<rparr>
      = (lane w line)\<lparr>buf := tl (buf (lane w line) @ [s]), sendq := ss\<rparr>"
    by (cases "lane w line") simp
  have "step w (Consume_iter line) =
     Inr (w\<lparr>bus := (bus w)\<lparr>Conveyors := (Conveyors (bus w))[nat line := (lane w line)\<lparr>sendq := ss\<rparr>]\<rparr>,
            stdout := stdout w @ [(Resource (bus w), line, hd (buf (lane w line) @ [s]))]\<rparr>)"
    using Nil assms by (simp add: Consume_step_def chanrecv_def lane_def)
  then show ?thesis
    by (simp only: eq)
next
  case (Cons x xs)
  with assms show ?thesis
    by (simp add: Consume_step_def chanrecv_def lane_def)
qed

text \<open>
  C7. Take a conveyor that is open, has no parked sender and has room for exactly the
  events \<open>evs\<close>: for a fresh conveyor of capacity \<open>C\<close> these are \<open>C\<close> events. The calls of
  \<open>Produce\<close> into it for \<open>evs\<close>, with no consumer step between them, all return and leave
  their events in the buffer, in order. The next call into that conveyor does not
  return: it is parked with its event and the buffer is unchanged. After every further
  schedule, of whatever length, that runs without a panic and holds no iteration of this
  conveyor's consumer, the call is still parked, first in line, the buffer is the same
  and nothing more has been printed for this line. And from every such state the
  iteration of this conveyor's consumer removes the oldest event of the conveyor, prints
  it, and releases the call: its event has entered the buffer (or, with capacity 0, is
  the event printed) and is no longer parked.
\<close>

theorem Produce_suspends_on_full_lane:
  assumes "bus_ok (bus w)" and "ret_ok w"
    and "0 \<le> line" and "line < int (length (Conveyors (bus w)))"
    and "\<not> closed (lane w line)" and "sendq (lane w line) = []"
    and "length (buf (lane w line)) + length evs = dataqsiz (lane w line)"
  shows "\<exists>w1 b2.
           exec w (map (Produce_call line) evs) = Inr w1 \<and>
           lane w1 line = (lane w line)\<lparr>buf := buf (lane w line) @ evs\<rparr> \<and>
           stdout w1 = stdout w \<and>
           Produce line (bus w1) ev = Suspended b2 \<and>
           Conveyors b2 ! nat line = (lane w1 line)\<lparr>sendq := [ev]\<rparr> \<and>
           (\<forall>as w'. exec (w1\<lparr>bus := b2\<rparr>) as = Inr w' \<longrightarrow> Consume_iter line \<notin> set as \<longrightarrow>
              lane w' line = (lane w1 line)\<lparr>sendq := ev # sent as line\<rparr> \<and>
              delivered w' line = delivered w line \<and>
              (\<exists>w''. step w' (Consume_iter line) = Inr w'' \<and>
                 lane w'' line = (lane w1 line)\<lparr>buf := tl (buf (lane w1 line) @ [ev]),
                                                 sendq := sent as line\<rparr> \<and>
                 stdout w'' = stdout w' @ [(Resource (bus w), line, hd (buf (lane w1 line) @ [ev]))]))"
proof -
  have n: "nat line < length (Conveyors (bus w))" using assms(3,4) by simp
  define w1 where "w1 = w\<lparr>bus := (bus w)\<lparr>Conveyors :=
      (Conveyors (bus w))[nat line := (lane w line)\<lparr>buf := buf (lane w line) @ evs\<rparr>]\<rparr>\<rparr>"
  have e: "exec w (map (Produce_call line) evs) = Inr w1"
    unfolding w1_def using assms(3,4,5,7) by (intro exec_fill) simp_all
  have lw: "lane w1 line = (lane w line)\<lparr>buf := buf (lane w line) @ evs\<rparr>"
    using n by (simp add: w1_def lane_def)
  have len: "length (Conveyors (bus w1)) = length (Conveyors (bus w))"
    by (simp add: w1_def)
  have sw: "stdout w1 = stdout w" "Resource (bus w1) = Resource (bus w)" "returned w1 = returned w"
    by (simp_all add: w1_def)
  define b2 where "b2 = (bus w1)\<lparr>Conveyors := (Conveyors (bus w1))[nat line :=
        (Conveyors (bus w1) ! nat line)\<lparr>sendq := sendq (Conveyors (bus w1) ! nat line) @ [ev]\<rparr>]\<rparr>"
  have p: "Produce line (bus w1) ev = Suspended b2"
    unfolding b2_def using assms(3,4,5,7) lw len
    by (intro Produce_full) (simp_all add: lane_def)
  have lb: "Conveyors b2 ! nat line = (lane w1 line)\<lparr>sendq := [ev]\<rparr>"
    using n len lw assms(6) by (simp add: b2_def lane_def)
  let ?w2 = "w1\<lparr>bus := b2\<rparr>"
  have okw: "bus_ok (bus w1)" "ret_ok w1"
    using exec_keeps(1) [OF assms(1) e] exec_ret_ok [OF assms(1,2) e] by simp_all
  have st: "step w1 (Produce_call line ev) = Inr ?w2"
    using p by simp
  have ok2: "bus_ok (bus ?w2)" "ret_ok ?w2"
    using step_keeps(1) [OF okw(1) st] step_ret_ok [OF okw st] by simp_all
  have l2: "lane ?w2 line = (lane w1 line)\<lparr>sendq := [ev]\<rparr>"
    using lb by (simp add: lane_def)
  have r2: "line < int (length (Conveyors (bus ?w2)))" "sendq (lane ?w2 line) \<noteq> []"
    "delivered ?w2 line = delivered w line" "Resource (bus ?w2) = Resource (bus w)"
  proof -
    show "line < int (length (Conveyors (bus ?w2)))" "Resource (bus ?w2) = Resource (bus w)"
      using assms(4) len sw by (simp_all add: b2_def)
    show "sendq (lane ?w2 line) \<noteq> []"
      by (simp add: l2)
    show "delivered ?w2 line = delivered w line"
      using sw by (simp add: delivered_def)
  qed
  have rel: "lane w' line = (lane w1 line)\<lparr>sendq := ev # sent as line\<rparr> \<and>
              delivered w' line = delivered w line \<and>
              (\<exists>w''. step w' (Consume_iter line) = Inr w'' \<and>
                 lane w'' line = (lane w1 line)\<lparr>buf := tl (buf (lane w1 line) @ [ev]),
                                                 sendq := sent as line\<rparr> \<and>
                 stdout w'' = stdout w' @ [(Resource (bus w), line, hd (buf (lane w1 line) @ [ev]))])"
    if x: "exec ?w2 as = Inr w'" and nc: "Consume_iter line \<notin> set as" for as w'
  proof -
    note sp = exec_stays_parked [OF ok2(1) assms(3) r2(1,2) x nc]
    have lw': "lane w' line = (lane w1 line)\<lparr>sendq := ev # sent as line\<rparr>"
      using sp(1) by (simp add: l2)
    have dw': "delivered w' line = delivered w line"
      using sp(2) r2(3) by simp
    note k = exec_keeps(1,2,3) [OF ok2(1) x]
    have in': "line < int (length (Conveyors (bus w')))"
      using k(3) r2(1) by simp
    have op': "\<not> closed (lane w' line)"
      using lw' lw assms(5) by simp
    have nr: "line \<notin> set (returned w')"
    proof
      assume "line \<in> set (returned w')"
      with exec_ret_ok [OF ok2 x] have "closed (lane w' line)"
        by (simp add: ret_ok_def list_all_iff)
      with op' show False ..
    qed
    have sq: "sendq (lane w' line) = ev # sent as line" "buf (lane w' line) = buf (lane w1 line)"
      using lw' by simp_all
    note rl = step_consumer_releases [OF assms(3) in' nr op' sq(1)]
    have n': "nat line < length (Conveyors (bus w'))" using in' assms(3) by simp
    define w'' where "w'' = w'\<lparr>bus := (bus w')\<lparr>Conveyors := (Conveyors (bus w'))[nat line :=
               (lane w' line)\<lparr>buf := tl (buf (lane w' line) @ [ev]), sendq := sent as line\<rparr>]\<rparr>,
            stdout := stdout w' @ [(Resource (bus w'), line, hd (buf (lane w' line) @ [ev]))]\<rparr>"
    have s'': "step w' (Consume_iter line) = Inr w''"
      unfolding w''_def by (rule rl)
    have "lane w'' line = (lane w' line)\<lparr>buf := tl (buf (lane w' line) @ [ev]), sendq := sent as line\<rparr>"
      using n' by (simp add: w''_def lane_def)
    then have l'': "lane w'' line = (lane w1 line)\<lparr>buf := tl (buf (lane w1 line) @ [ev]),
                                                 sendq := sent as line\<rparr>"
      by (simp add: lw')
    have o'': "stdout w'' = stdout w' @ [(Resource (bus w), line, hd (buf (lane w1 line) @ [ev]))]"
      using k(2) r2(4) by (simp add: w''_def sq(2))
    from s'' l'' o'' have "\<exists>w''. step w' (Consume_iter line) = Inr w'' \<and>
                 lane w'' line = (lane w1 line)\<lparr>buf := tl (buf (lane w1 line) @ [ev]),
                                                 sendq := sent as line\<rparr> \<and>
                 stdout w'' = stdout w' @ [(Resource (bus w), line, hd (buf (lane w1 line) @ [ev]))]"
      by blast
    with lw' dw' show ?thesis by simp
  qed
  show ?thesis
    using e lw sw(1) p lb rel by (intro exI [of _ w1] exI [of _ b2]) blast
qed

theorem Produce_suspends_on_full_lane_witness:
  "NewMainBus 100 ''iron'' 1 1 = Inr demo_bus \<and>
   bus_ok (bus (start demo_bus)) \<and> ret_ok (start demo_bus) \<and>
   0 < int (length (Conveyors (bus (start demo_bus)))) \<and>
   \<not> closed (lane (start demo_bus) 0) \<and> sendq (lane (start demo_bus) 0) = [] \<and>
   length (buf (lane (start demo_bus) 0)) + length [iron_event 0] = dataqsiz (lane (start demo_bus) 0) \<and>
   exec (start demo_bus) (map (Produce_call 0) [iron_event 0]) = Inr loaded_world \<and>
   Produce 0 (bus loaded_world) (iron_event 1) = Suspended parked_bus \<and>
   exec (loaded_world\<lparr>bus := parked_bus\<rparr>) side_schedule = Inr side_world \<and>
   Consume_iter 0 \<notin> set side_schedule \<and>
   sendq (lane side_world 0) = [iron_event 1] \<and>
   delivered side_world 0 = [] \<and>
   (\<exists>w''. step side_world (Consume_iter 0) = Inr w'' \<and>
      sendq (lane w'' 0) = [] \<and> buf (lane w'' 0) = [iron_event 1] \<and>
      stdout w'' = stdout side_world @ [(''iron'', 0, iron_event 0)])"
proof -
  let ?w = "start demo_bus"
  let ?X = "(lane loaded_world 0)\<lparr>sendq := iron_event 1 # sent side_schedule 0\<rparr>"
  let ?Y = "(lane loaded_world 0)\<lparr>buf := tl (buf (lane loaded_world 0) @ [iron_event 1]),
                                   sendq := sent side_schedule 0\<rparr>"
  have new: "NewMainBus 100 ''iron'' 1 1 = Inr demo_bus"
    by (simp add: NewMainBus_lanes demo_bus_def numeral_2_eq_2)
  have h: "bus_ok (bus ?w)" "ret_ok ?w" "(0::int) \<le> 0" "0 < int (length (Conveyors (bus ?w)))"
    "\<not> closed (lane ?w 0)" "sendq (lane ?w 0) = []"
    "length (buf (lane ?w 0)) + length [iron_event 0] = dataqsiz (lane ?w 0)"
    by code_simp+
  have e: "exec ?w (map (Produce_call 0) [iron_event 0]) = Inr loaded_world" by code_simp
  have p: "Produce 0 (bus loaded_world) (iron_event 1) = Suspended parked_bus" by code_simp
  have x: "exec (loaded_world\<lparr>bus := parked_bus\<rparr>) side_schedule = Inr side_world" by code_simp
  have nc: "Consume_iter 0 \<notin> set side_schedule" by code_simp
  have ev: "sendq ?X = [iron_event 1]" "sendq ?Y = []" "buf ?Y = [iron_event 1]"
    "delivered ?w 0 = []"
    "(Resource (bus ?w), 0 :: int, hd (buf (lane loaded_world 0) @ [iron_event 1]))
       = (''iron'', 0, iron_event 0)"
    by code_simp+
  from Produce_suspends_on_full_lane [OF h, of "iron_event 1"] obtain w1 b2 where
    f1: "exec ?w (map (Produce_call 0) [iron_event 0]) = Inr w1"
    and f2: "Produce 0 (bus w1) (iron_event 1) = Suspended b2"
    and f3: "\<And>as w'. exec (w1\<lparr>bus := b2\<rparr>) as = Inr w' \<Longrightarrow> Consume_iter 0 \<notin> set as \<Longrightarrow>
              lane w' 0 = (lane w1 0)\<lparr>sendq := iron_event 1 # sent as 0\<rparr> \<and>
              delivered w' 0 = delivered ?w 0 \<and>
              (\<exists>w''. step w' (Consume_iter 0) = Inr w'' \<and>
                 lane w'' 0 = (lane w1 0)\<lparr>buf := tl (buf (lane w1 0) @ [iron_event 1]),
                                                 sendq := sent as 0\<rparr> \<and>
                 stdout w'' = stdout w' @ [(Resource (bus ?w), 0, hd (buf (lane w1 0) @ [iron_event 1]))])"
    by blast
  from f1 e have w1: "w1 = loaded_world" by simp
  from f2 p have b2: "b2 = parked_bus" by (simp add: w1)
  from f3 [of side_schedule side_world, unfolded w1 b2, OF x nc]
  have g1: "lane side_world 0 = ?X" and g2: "delivered side_world 0 = delivered ?w 0"
    and g3: "\<exists>w''. step side_world (Consume_iter 0) = Inr w'' \<and> lane w'' 0 = ?Y \<and>
          stdout w'' = stdout side_world @ [(Resource (bus ?w), 0, hd (buf (lane loaded_world 0) @ [iron_event 1]))]"
    by blast+
  have c1: "sendq (lane side_world 0) = [iron_event 1]"
    by (simp only: g1 ev)
  have c2: "delivered side_world 0 = []"
    by (simp only: g2 ev)
  from g3 obtain w'' where s: "step side_world (Consume_iter 0) = Inr w''" and l: "lane w'' 0 = ?Y"
    and o: "stdout w'' = stdout side_world @ [(Resource (bus ?w), 0, hd (buf (lane loaded_world 0) @ [iron_event 1]))]"
    by blast
  have "sendq (lane w'' 0) = []" "buf (lane w'' 0) = [iron_event 1]"
    "stdout w'' = stdout side_world @ [(''iron'', 0, iron_event 0)]"
    by (simp_all only: l o ev)
  with s have c3: "\<exists>w''. step side_world (Consume_iter 0) = Inr w'' \<and>
      sendq (lane w'' 0) = [] \<and> buf (lane w'' 0) = [iron_event 1] \<and>
      stdout w'' = stdout side_world @ [(''iron'', 0, iron_event 0)]"
    by blast
  from new h(1,2,4,5,6,7) e p x nc c1 c2 c3 show ?thesis
    by (intro conjI)
qed

section \<open>Every event once\<close>



lemma calls_Nil [simp]: "calls [] = []"
  by (simp add: calls_def)

lemma calls_Cons_Produce [simp]: "calls (Produce_call idx ev # as) = (idx, ev) # calls as"
  by (simp add: calls_def)

lemma calls_Cons_Consume [simp]: "calls (Consume_iter i # as) = calls as"
  by (simp add: calls_def)

lemma calls_Cons_Close [simp]: "calls (Close_call # as) = calls as"
  by (simp add: calls_def)








section \<open>Draining and order\<close>

text \<open>
  C2. For a line of the bus and a positive \<^verbatim>\<open>WaitGroup\<close> counter:
  \<^item> when \<open>Close\<close> succeeds, every conveyor keeps its buffer and is closed, and \<open>Consume\<close>
    run on the closed bus returns after printing, in order, every event that was
    buffered in its conveyor, and leaves that conveyor empty;
  \<^item> \<open>Consume\<close> returns when its conveyor is closed, and only then: on an open conveyor
    it prints everything that is in the conveyor and stays parked;
  \<^item> an iteration of the loop ends the loop exactly when the conveyor is closed and its
    buffer is empty;
  \<^item> in every schedule, a consumer that has returned leaves its conveyor closed and
    empty, and has printed all that was in its line before and all that was produced
    into it since, in order.
\<close>

theorem Consume_returns_when_closed_and_drained:
  assumes "0 \<le> line" and "line < int (length (Conveyors (bus w)))" and "0 < wg w"
  shows "(Close (bus w) = Inr b' \<longrightarrow>
            map buf (Conveyors b') = map buf (Conveyors (bus w)) \<and>
            list_all closed (Conveyors b') \<and>
            Consume line (w\<lparr>bus := b'\<rparr>) =
              Completed (w\<lparr>bus := b'\<lparr>Conveyors := (Conveyors b')[nat line := (Conveyors b' ! nat line)\<lparr>buf := []\<rparr>]\<rparr>,
                           stdout := stdout w @ map (\<lambda>ev. (Resource (bus w), line, ev)) (buf (lane w line)),
                           wg := wg w - 1, returned := line # returned w\<rparr>)) \<and>
         (closed (lane w line) \<longrightarrow>
            Consume line w =
              Completed (w\<lparr>bus := (bus w)\<lparr>Conveyors := (Conveyors (bus w))[nat line := (lane w line)\<lparr>buf := []\<rparr>]\<rparr>,
                           stdout := stdout w @ map (\<lambda>ev. (Resource (bus w), line, ev)) (buf (lane w line)),
                           wg := wg w - 1, returned := line # returned w\<rparr>)) \<and>
         (\<not> closed (lane w line) \<longrightarrow>
            Consume line w =
              Suspended (w\<lparr>bus := (bus w)\<lparr>Conveyors := (Conveyors (bus w))[nat line := (lane w line)\<lparr>buf := [], sendq := []\<rparr>]\<rparr>,
                           stdout := stdout w @ map (\<lambda>ev. (Resource (bus w), line, ev)) (pending (lane w line))\<rparr>)) \<and>
         (chanrecv (lane w line) = ClosedAndDrained \<longleftrightarrow> closed (lane w line) \<and> buf (lane w line) = []) \<and>
         (bus_ok (bus w) \<longrightarrow> ret_ok w \<longrightarrow> exec w as = Inr w' \<longrightarrow> line \<in> set (returned w') \<longrightarrow>
            closed (lane w' line) \<and> pending (lane w' line) = [] \<and>
            delivered w' line = delivered w line @ pending (lane w line) @ sent as line)"
proof (intro conjI impI)
  assume cl: "Close (bus w) = Inr b'"
  show "map buf (Conveyors b') = map buf (Conveyors (bus w))" and "list_all closed (Conveyors b')"
    using Close_buffers [OF cl] by simp_all
  have n: "nat line < length (Conveyors (bus w))" using assms by simp
  have "Conveyors b' ! nat line = (lane w line)\<lparr>closed := True\<rparr>"
    using Close_Inr_open(3) [OF cl n] by (simp add: lane_def)
  moreover have "Resource b' = Resource (bus w)" "length (Conveyors b') = length (Conveyors (bus w))"
    using Close_Inr(1,2) [OF cl] by simp_all
  ultimately show "Consume line (w\<lparr>bus := b'\<rparr>) =
      Completed (w\<lparr>bus := b'\<lparr>Conveyors := (Conveyors b')[nat line := (Conveyors b' ! nat line)\<lparr>buf := []\<rparr>]\<rparr>,
                   stdout := stdout w @ map (\<lambda>ev. (Resource (bus w), line, ev)) (buf (lane w line)),
                   wg := wg w - 1, returned := line # returned w\<rparr>)"
    using assms Consume_closed [of line "w\<lparr>bus := b'\<rparr>"] by (simp add: lane_def)
next
  assume "closed (lane w line)"
  with assms(1,2) show "Consume line w =
      Completed (w\<lparr>bus := (bus w)\<lparr>Conveyors := (Conveyors (bus w))[nat line := (lane w line)\<lparr>buf := []\<rparr>]\<rparr>,
                   stdout := stdout w @ map (\<lambda>ev. (Resource (bus w), line, ev)) (buf (lane w line)),
                   wg := wg w - 1, returned := line # returned w\<rparr>)"
    using assms(3) by (rule Consume_closed)
next
  assume "\<not> closed (lane w line)"
  with assms(1,2) show "Consume line w =
      Suspended (w\<lparr>bus := (bus w)\<lparr>Conveyors := (Conveyors (bus w))[nat line := (lane w line)\<lparr>buf := [], sendq := []\<rparr>]\<rparr>,
                   stdout := stdout w @ map (\<lambda>ev. (Resource (bus w), line, ev)) (pending (lane w line))\<rparr>)"
    by (rule Consume_open)
next
  show "chanrecv (lane w line) = ClosedAndDrained \<longleftrightarrow> closed (lane w line) \<and> buf (lane w line) = []"
    by (rule chanrecv_ClosedAndDrained)
next
  assume a: "bus_ok (bus w)" "ret_ok w" "exec w as = Inr w'" "line \<in> set (returned w')"
  show "closed (lane w' line)" and "pending (lane w' line) = []"
    using returned_drained(1,2) [OF a] by simp_all
  show "delivered w' line = delivered w line @ pending (lane w line) @ sent as line"
    using returned_drained(3) [OF a] by (simp add: line_of_def)
qed

theorem Consume_returns_when_closed_and_drained_witness:
  "0 < wg loaded_world \<and>
   Close (bus loaded_world) = Inr \<lparr>Resource = ''iron'', Conveyors = [closed_chan [iron_event 0], closed_chan []]\<rparr> \<and>
   Consume 0 (loaded_world\<lparr>bus := \<lparr>Resource = ''iron'', Conveyors = [closed_chan [iron_event 0], closed_chan []]\<rparr>\<rparr>)
     = Completed drained_world \<and>
   \<not> closed (lane loaded_world 0) \<and>
   Consume 0 loaded_world
     = Suspended (loaded_world\<lparr>bus := demo_bus, stdout := [(''iron'', 0, iron_event 0)]\<rparr>) \<and>
   exec loaded_world [Close_call, Consume_iter 0, Consume_iter 0] = Inr drained_world \<and>
   0 \<in> set (returned drained_world) \<and>
   delivered drained_world 0 = [iron_event 0]"
proof -
  let ?b = "\<lparr>Resource = ''iron'', Conveyors = [closed_chan [iron_event 0], closed_chan []]\<rparr> :: (string, nat) MainBus"
  let ?as = "[Close_call, Consume_iter 0, Consume_iter 0] :: (string, nat) action list"
  let ?x1 = "loaded_world\<lparr>bus := ?b\<lparr>Conveyors := (Conveyors ?b)[nat 0 := (Conveyors ?b ! nat 0)\<lparr>buf := []\<rparr>]\<rparr>,
               stdout := stdout loaded_world @ map (\<lambda>ev. (Resource (bus loaded_world), 0, ev)) (buf (lane loaded_world 0)),
               wg := wg loaded_world - 1, returned := 0 # returned loaded_world\<rparr>"
  let ?x2 = "loaded_world\<lparr>bus := (bus loaded_world)\<lparr>Conveyors := (Conveyors (bus loaded_world))[nat 0 :=
                 (lane loaded_world 0)\<lparr>buf := [], sendq := []\<rparr>]\<rparr>,
               stdout := stdout loaded_world @ map (\<lambda>ev. (Resource (bus loaded_world), 0, ev)) (pending (lane loaded_world 0))\<rparr>"
  have h: "(0::int) \<le> 0" "0 < int (length (Conveyors (bus loaded_world)))" "0 < wg loaded_world"
    by code_simp+
  note t = Consume_returns_when_closed_and_drained [OF h, of ?b ?as drained_world]
  have cl: "Close (bus loaded_world) = Inr ?b" by code_simp
  have op: "\<not> closed (lane loaded_world 0)" by code_simp
  have ok: "bus_ok (bus loaded_world)" "ret_ok loaded_world" by code_simp+
  have ex: "exec loaded_world ?as = Inr drained_world" by code_simp
  have r: "0 \<in> set (returned drained_world)" by code_simp
  have e1: "?x1 = drained_world"
    by code_simp
  have e2: "?x2 = loaded_world\<lparr>bus := demo_bus, stdout := [(''iron'', 0, iron_event 0)]\<rparr>"
    by code_simp
  have e3: "delivered loaded_world 0 @ pending (lane loaded_world 0) @ sent ?as 0 = [iron_event 0]"
    by code_simp
  from t cl have "Consume 0 (loaded_world\<lparr>bus := ?b\<rparr>) = Completed ?x1"
    by blast
  then have c1: "Consume 0 (loaded_world\<lparr>bus := ?b\<rparr>) = Completed drained_world"
    by (simp only: e1)
  from t op have "Consume 0 loaded_world = Suspended ?x2"
    by blast
  then have c2: "Consume 0 loaded_world
      = Suspended (loaded_world\<lparr>bus := demo_bus, stdout := [(''iron'', 0, iron_event 0)]\<rparr>)"
    by (simp only: e2)
  from t ok ex r have "delivered drained_world 0
      = delivered loaded_world 0 @ pending (lane loaded_world 0) @ sent ?as 0"
    by blast
  then have c3: "delivered drained_world 0 = [iron_event 0]"
    by (simp only: e3)
  from h(3) cl c1 op c2 ex r c3 show ?thesis
    by (intro conjI)
qed

lemma delivered_append:
  "stdout w1 = stdout w @ map (\<lambda>ev. (res, line, ev)) xs \<Longrightarrow>
     delivered w1 line = delivered w line @ xs"
  by (simp add: delivered_def comp_def)

lemma Consume_outcome:
  assumes "Consume line w = Completed w1 \<or> Consume line w = Suspended w1"
  shows "stdout w1 = stdout w @ map (\<lambda>ev. (Resource (bus w), line, ev))
           (if closed (lane w line) then buf (lane w line) else pending (lane w line))"
proof -
  from assms have r: "0 \<le> line" "line < int (length (Conveyors (bus w)))"
    by (auto simp: Consume_def split: if_splits)
  show ?thesis
  proof (cases "closed (lane w line)")
    case True
    from assms r True show ?thesis
      using Consume_loop_closed [of "lane w line" "Resource (bus w)" line "stdout w"]
      by (auto simp: Consume_def lane_def split: sum.splits)
  next
    case False
    from assms r False show ?thesis
      using Consume_loop_open [of "lane w line" "Resource (bus w)" line "stdout w"]
      by (auto simp: Consume_def lane_def)
  qed
qed

text \<open>
  C3. In every schedule that runs without a panic, and for every line of the bus: what
  the line's consumer has printed, followed by what is still in the line's conveyor, is
  what was there at the start followed by the events produced into this line, in the
  order of the \<open>Produce\<close> calls. And \<open>Consume\<close>, run from there until it returns or
  parks, prints exactly what is in the conveyor, in that order. So the order of delivery
  within one line is the order of production.
\<close>

theorem Consume_fifo_per_line:
  assumes "bus_ok (bus w)" and "exec w as = Inr w'"
    and "0 \<le> line" and "line < int (length (Conveyors (bus w)))"
  shows "delivered w' line @ pending (lane w' line)
           = delivered w line @ pending (lane w line) @ sent as line \<and>
         (Consume line w' = Completed w1 \<or> Consume line w' = Suspended w1 \<longrightarrow>
            delivered w1 line = delivered w' line @ pending (lane w' line))"
proof (intro conjI impI)
  show "delivered w' line @ pending (lane w' line)
           = delivered w line @ pending (lane w line) @ sent as line"
    using exec_keeps(4) [OF assms] by (simp add: line_of_def)
next
  assume c: "Consume line w' = Completed w1 \<or> Consume line w' = Suspended w1"
  have "chan_ok (lane w' line)"
    using bus_ok_nth [OF exec_keeps(1) [OF assms(1,2)], of "nat line"] assms(3,4)
      exec_keeps(3) [OF assms(1,2)]
    by (simp add: lane_def)
  then have "closed (lane w' line) \<Longrightarrow> pending (lane w' line) = buf (lane w' line)"
    by (auto simp: chan_ok_def pending_def)
  then have "(if closed (lane w' line) then buf (lane w' line) else pending (lane w' line))
      = pending (lane w' line)"
    by simp
  with Consume_outcome [OF c] show "delivered w1 line = delivered w' line @ pending (lane w' line)"
    by (simp add: delivered_append)
qed

theorem Consume_fifo_per_line_witness:
  "bus_ok (bus (start demo_bus)) \<and>
   exec (start demo_bus) fifo_schedule = Inr fifo_world \<and>
   0 < int (length (Conveyors (bus (start demo_bus)))) \<and>
   delivered fifo_world 0 @ pending (lane fifo_world 0) = [iron_event 0, iron_event 1] \<and>
   Consume 1 fifo_world
     = Suspended (fifo_world\<lparr>bus := demo_bus,
         stdout := stdout fifo_world @ [(''iron'', 1, iron_event 2)]\<rparr>) \<and>
   delivered (fifo_world\<lparr>bus := demo_bus,
         stdout := stdout fifo_world @ [(''iron'', 1, iron_event 2)]\<rparr>) 1 = [iron_event 2]"
proof -
  let ?w1 = "fifo_world\<lparr>bus := demo_bus, stdout := stdout fifo_world @ [(''iron'', 1, iron_event 2)]\<rparr>"
  have ok: "bus_ok (bus (start demo_bus))" by code_simp
  have ex: "exec (start demo_bus) fifo_schedule = Inr fifo_world" by code_simp
  have h: "(0::int) \<le> 0" "0 < int (length (Conveyors (bus (start demo_bus))))" by code_simp+
  have h1: "(0::int) \<le> 1" "1 < int (length (Conveyors (bus (start demo_bus))))" by code_simp+
  have e: "delivered (start demo_bus) 0 @ pending (lane (start demo_bus) 0) @ sent fifo_schedule 0
        = [iron_event 0, iron_event 1]" by code_simp
  have c: "Consume 1 fifo_world = Suspended ?w1" by code_simp
  have e1: "delivered fifo_world 1 @ pending (lane fifo_world 1) = [iron_event 2]" by code_simp
  from Consume_fifo_per_line [OF ok ex h, of ?w1]
  have "delivered fifo_world 0 @ pending (lane fifo_world 0)
      = delivered (start demo_bus) 0 @ pending (lane (start demo_bus) 0) @ sent fifo_schedule 0"
    by blast
  then have a: "delivered fifo_world 0 @ pending (lane fifo_world 0) = [iron_event 0, iron_event 1]"
    by (simp only: e)
  from Consume_fifo_per_line [OF ok ex h1, of ?w1] c
  have "delivered ?w1 1 = delivered fifo_world 1 @ pending (lane fifo_world 1)"
    by blast
  then have b: "delivered ?w1 1 = [iron_event 2]"
    by (simp only: e1)
  from ok ex h(2) a c b show ?thesis
    by (intro conjI)
qed

section \<open>The uninterrupted consumer and its iterations\<close>

text \<open>
  \<open>Consume\<close> and the scheduler's \<open>Consume_iter\<close> steps are two readings of the same loop:
  whenever \<open>Consume\<close> returns or parks, the schedule made only of that line's iterations
  reaches the same world.
\<close>

lemma Consume_iterations_closed:
  assumes "0 \<le> line" and "line < int (length (Conveyors (bus w)))"
    and "line \<notin> set (returned w)" and "closed (lane w line)" and "0 < wg w"
  shows "exec w (replicate (Suc (length (buf (lane w line)))) (Consume_iter line)) =
     Inr (w\<lparr>bus := (bus w)\<lparr>Conveyors := (Conveyors (bus w))[nat line := (lane w line)\<lparr>buf := []\<rparr>]\<rparr>,
            stdout := stdout w @ map (\<lambda>ev. (Resource (bus w), line, ev)) (buf (lane w line)),
            wg := wg w - 1, returned := line # returned w\<rparr>)"
  using assms
proof (induction "buf (lane w line)" arbitrary: w)
  case Nil
  from Nil.hyps [symmetric] have "(lane w line)\<lparr>buf := []\<rparr> = lane w line"
    by (cases "lane w line") simp
  then have "(Conveyors (bus w))[nat line := (lane w line)\<lparr>buf := []\<rparr>] = Conveyors (bus w)"
    by (simp add: lane_def)
  moreover have "step w (Consume_iter line) = Inr (w\<lparr>wg := wg w - 1, returned := line # returned w\<rparr>)"
    using Nil.prems Nil.hyps [symmetric]
    by (simp add: Consume_step_def chanrecv_def lane_def wg_Done_def)
  ultimately show ?case
    using Nil.hyps [symmetric] by simp
next
  case (Cons x xs)
  let ?w1 = "w\<lparr>bus := (bus w)\<lparr>Conveyors := (Conveyors (bus w))[nat line := (lane w line)\<lparr>buf := xs\<rparr>]\<rparr>,
               stdout := stdout w @ [(Resource (bus w), line, x)]\<rparr>"
  have s: "step w (Consume_iter line) = Inr ?w1"
    using Cons.prems Cons.hyps(2) [symmetric]
    by (simp add: Consume_step_def chanrecv_def lane_def)
  have l: "lane ?w1 line = (lane w line)\<lparr>buf := xs\<rparr>"
    using Cons.prems by (simp add: lane_def)
  have "exec ?w1 (replicate (Suc (length (buf (lane ?w1 line)))) (Consume_iter line)) =
     Inr (?w1\<lparr>bus := (bus ?w1)\<lparr>Conveyors := (Conveyors (bus ?w1))[nat line := (lane ?w1 line)\<lparr>buf := []\<rparr>]\<rparr>,
            stdout := stdout ?w1 @ map (\<lambda>ev. (Resource (bus ?w1), line, ev)) (buf (lane ?w1 line)),
            wg := wg ?w1 - 1, returned := line # returned ?w1\<rparr>)"
    using Cons.prems by (intro Cons.hyps(1)) (simp_all add: l)
  then show ?case
    using s Cons.hyps(2) [symmetric] by (simp add: l)
qed

lemma Consume_iterations_open:
  assumes "0 \<le> line" and "line < int (length (Conveyors (bus w)))"
    and "line \<notin> set (returned w)" and "\<not> closed (lane w line)"
  shows "exec w (replicate (length (pending (lane w line))) (Consume_iter line)) =
     Inr (w\<lparr>bus := (bus w)\<lparr>Conveyors := (Conveyors (bus w))[nat line := (lane w line)\<lparr>buf := [], sendq := []\<rparr>]\<rparr>,
            stdout := stdout w @ map (\<lambda>ev. (Resource (bus w), line, ev)) (pending (lane w line))\<rparr>)"
  using assms
proof (induction "pending (lane w line)" arbitrary: w)
  case Nil
  from Nil.hyps [symmetric] have "(lane w line)\<lparr>buf := [], sendq := []\<rparr> = lane w line"
    by (cases "lane w line") (simp add: pending_def)
  then have "(Conveyors (bus w))[nat line := (lane w line)\<lparr>buf := [], sendq := []\<rparr>] = Conveyors (bus w)"
    by (simp add: lane_def)
  then show ?case
    using Nil.hyps [symmetric] by simp
next
  case (Cons x xs)
  from chanrecv_open [OF Cons.prems(4) Cons.hyps(2) [symmetric]] obtain c' where
    r: "chanrecv (lane w line) = Received x c'" and p: "pending c' = xs" and c': "\<not> closed c'"
      "c'\<lparr>buf := [], sendq := []\<rparr> = (lane w line)\<lparr>buf := [], sendq := []\<rparr>"
    by blast
  let ?w1 = "w\<lparr>bus := (bus w)\<lparr>Conveyors := (Conveyors (bus w))[nat line := c']\<rparr>,
               stdout := stdout w @ [(Resource (bus w), line, x)]\<rparr>"
  have s: "step w (Consume_iter line) = Inr ?w1"
    using Cons.prems r by (simp add: Consume_step_def lane_def)
  have l: "lane ?w1 line = c'"
    using Cons.prems by (simp add: lane_def)
  have "exec ?w1 (replicate (length (pending (lane ?w1 line))) (Consume_iter line)) =
     Inr (?w1\<lparr>bus := (bus ?w1)\<lparr>Conveyors := (Conveyors (bus ?w1))[nat line := (lane ?w1 line)\<lparr>buf := [], sendq := []\<rparr>]\<rparr>,
            stdout := stdout ?w1 @ map (\<lambda>ev. (Resource (bus ?w1), line, ev)) (pending (lane ?w1 line))\<rparr>)"
    using Cons.prems c'(1) by (intro Cons.hyps(1)) (simp_all add: l p)
  then show ?case
    using s Cons.hyps(2) [symmetric] by (simp add: l p c'(2))
qed

lemma Consume_is_its_iterations:
  assumes "0 \<le> line" and "line < int (length (Conveyors (bus w)))"
    and "line \<notin> set (returned w)"
  shows "Consume line w = Completed w' \<Longrightarrow>
           exec w (replicate (Suc (length (buf (lane w line)))) (Consume_iter line)) = Inr w'"
    and "Consume line w = Suspended w' \<Longrightarrow>
           exec w (replicate (length (pending (lane w line))) (Consume_iter line)) = Inr w'"
proof -
  assume c: "Consume line w = Completed w'"
  have cl: "closed (lane w line)"
  proof (rule ccontr)
    assume "\<not> closed (lane w line)"
    from Consume_open [OF assms(1,2) this] c show False by simp
  qed
  have wg: "0 < wg w"
    using c assms(1,2) by (auto simp: Consume_def wg_Done_def split: outcome.splits if_splits)
  from Consume_closed [OF assms(1,2) cl wg] c Consume_iterations_closed [OF assms cl wg]
  show "exec w (replicate (Suc (length (buf (lane w line)))) (Consume_iter line)) = Inr w'"
    by simp
next
  assume c: "Consume line w = Suspended w'"
  have op: "\<not> closed (lane w line)"
  proof
    assume cl: "closed (lane w line)"
    from c assms(1,2) Consume_loop_closed [OF cl, of "Resource (bus w)" line "stdout w"]
    show False
      by (auto simp: Consume_def lane_def split: sum.splits)
  qed
  from Consume_open [OF assms(1,2) op] c Consume_iterations_open [OF assms op]
  show "exec w (replicate (length (pending (lane w line))) (Consume_iter line)) = Inr w'"
    by simp
qed

end
